theory Spec2Isabelle
  imports Complex_Main "HOL-Library.Word" "HOL-Library.Log_Nat" "HOL-Library.Multiset"
begin

section \<open>C strings\<close>

text \<open>
  A key is a \<^verbatim>\<open>const char*\<close>: the bytes of the buffer it points to. The C library
  functions read it up to the first NUL byte; the end of the list stands for the
  terminating NUL of a buffer that holds no earlier one.
\<close>

definition NUL :: char where
  "NUL = CHR 0x00"

text \<open>
  \<^verbatim>\<open>strcmp\<close>: the difference of the first pair of bytes that differ, read as
  \<^verbatim>\<open>unsigned char\<close>, and 0 when both strings end together.
\<close>

fun strcmp :: "string \<Rightarrow> string \<Rightarrow> int" where
  "strcmp [] [] = 0"
| "strcmp [] (b # bs) = - int (of_char b)"
| "strcmp (a # as) [] = int (of_char a)"
| "strcmp (a # as) (b # bs) =
     (if a \<noteq> b then int (of_char a) - int (of_char b)
      else if a = NUL then 0
      else strcmp as bs)"

text \<open>\<^verbatim>\<open>strdup\<close>: a fresh copy of the bytes before the terminating NUL.\<close>

fun strdup :: "string \<Rightarrow> string" where
  "strdup [] = []"
| "strdup (c # cs) = (if c = NUL then [] else c # strdup cs)"

section \<open>hash_function\<close>

text \<open>
  \<^verbatim>\<open>unsigned long\<close> is 64 bits wide (LP64) and plain \<^verbatim>\<open>char\<close> is signed, as on
  x86-64: \<^verbatim>\<open>int c = *str++\<close> sign-extends the byte, and adding \<^verbatim>\<open>c\<close> to the
  \<^verbatim>\<open>unsigned long\<close> converts it modulo \<open>2 ^ 64\<close>.
\<close>

type_synonym ulong = "64 word"

definition char_to_int :: "char \<Rightarrow> int" where
  "char_to_int ch = sint (of_char ch :: 8 word)"

fun hash_loop :: "ulong \<Rightarrow> string \<Rightarrow> ulong" where
  "hash_loop hash [] = hash"
| "hash_loop hash (ch # str) =
     (let c = char_to_int ch
      in if c = 0 then hash
         else hash_loop ((push_bit 5 hash + hash) + of_int c) str)"

definition hash_function :: "string \<Rightarrow> ulong" where
  "hash_function str = hash_loop 5381 str"

section \<open>The load-factor test in single precision\<close>

text \<open>
  \<^verbatim>\<open>(float)map->length / map->capacity >= 0.75\<close> converts both sizes to binary32,
  divides in binary32 and compares the quotient, widened to double without loss, with
  0.75. A binary32 value is a significand of at most 24 bits times a power of two;
  conversion and division round to the nearest such value, ties to the even
  significand. Sizes and their quotients are far inside the normal range, and the
  arithmetic is evaluated in the operands' own format (SSE, \<^verbatim>\<open>FLT_EVAL_METHOD\<close> 0).
  A value is the pair of its significand and its exponent.
\<close>

type_synonym float = "nat \<times> int"

definition float_value :: "float \<Rightarrow> rat" where
  "float_value x = of_nat (fst x) * 2 powi (snd x)"

text \<open>The integer nearest to \<open>n / d\<close>, ties to even.\<close>

definition round_half_even :: "nat \<Rightarrow> nat \<Rightarrow> nat" where
  "round_half_even n d =
     (let q = n div d; r = n mod d
      in if 2 * r < d then q
         else if d < 2 * r then q + 1
         else if even q then q else q + 1)"

text \<open>The exponent \<open>e\<close> of a positive fraction: \<open>2 ^ e \<le> n / d < 2 ^ (e + 1)\<close>.\<close>

definition float_exponent :: "nat \<Rightarrow> nat \<Rightarrow> int" where
  "float_exponent n d =
     (let k = int (floorlog 2 n) - int (floorlog 2 d)
      in if d * 2 ^ nat k \<le> n * 2 ^ nat (- k) then k else k - 1)"

text \<open>
  The binary32 value nearest to \<open>n / d\<close>: the unit in the last place is \<open>2 ^ (e - 23)\<close>.
  The test is reached after \<^verbatim>\<open>map->length++\<close> and with a positive capacity only (a
  capacity of 0 has faulted in \<^verbatim>\<open>hash % map->capacity\<close> before), where the first
  branch is not taken.
\<close>

definition float_round :: "nat \<Rightarrow> nat \<Rightarrow> float" where
  "float_round n d =
     (if n = 0 \<or> d = 0 then (0, 0)
      else let u = float_exponent n d - 23
           in (round_half_even (n * 2 ^ nat (- u)) (d * 2 ^ nat u), u))"

definition float_of_size :: "nat \<Rightarrow> float" where
  "float_of_size n = float_round n 1"

definition float_div :: "float \<Rightarrow> float \<Rightarrow> float" where
  "float_div x y =
     float_round (fst x * 2 ^ nat (snd x - snd y)) (fst y * 2 ^ nat (snd y - snd x))"

definition float_le :: "float \<Rightarrow> float \<Rightarrow> bool" where
  "float_le x y \<longleftrightarrow>
     fst x * 2 ^ nat (snd x - snd y) \<le> fst y * 2 ^ nat (snd y - snd x)"

definition load_factor_reached :: "nat \<Rightarrow> nat \<Rightarrow> bool" where
  "load_factor_reached len cap \<longleftrightarrow>
     float_le (3, - 2) (float_div (float_of_size len) (float_of_size cap))"

section \<open>The hash table\<close>

text \<open>
  \<^verbatim>\<open>void*\<close> values are addresses; \<^verbatim>\<open>NULL\<close> is address 0. A bucket's chain of
  \<^verbatim>\<open>hashmap_entry_t\<close> nodes linked by \<^verbatim>\<open>next\<close> is the list of its entries from the
  bucket head on. \<^verbatim>\<open>size_t\<close> counts are natural numbers: a table owns an array of
  \<^verbatim>\<open>capacity\<close> pointers and one heap node per entry, so neither \<^verbatim>\<open>capacity * 2\<close> nor
  \<^verbatim>\<open>length++\<close> can reach \<open>2 ^ 64\<close> in memory. Allocation failure ends the process and
  is outside the model. The \<^verbatim>\<open>print\<close> and \<^verbatim>\<open>destroy\<close> references that
  \<^verbatim>\<open>hashmap_create\<close> stores are read by none of the operations below. The fields
  \<^verbatim>\<open>value\<close> and \<^verbatim>\<open>length\<close> are \<open>val\<close> and \<open>map_length\<close> here, and the table
  \<^verbatim>\<open>keywords\<close> is \<open>keywords_table\<close>. Every operation returns its C result, the table as
  it leaves it, and the calls and releases it made, in their order.
\<close>

type_synonym ptr = "64 word"

definition NULL :: ptr where
  "NULL = 0"

record hashmap_entry_t =
  key :: string
  val :: ptr

record hashmap_t =
  capacity :: nat
  map_length :: nat
  data :: "hashmap_entry_t list list"

text \<open>A \<^verbatim>\<open>void (*)(void*)\<close>: no function, the C library's \<^verbatim>\<open>free\<close>, or another one.\<close>

datatype free_fn_t = Null_fn | Free | Destructor nat

datatype fault = Division_by_zero | Null_function_call

text \<open>What an operation does to memory it does not keep.\<close>

datatype event =
    Call free_fn_t ptr
  | Memory_destroy_key string
  | Memory_destroy_entry hashmap_entry_t
  | Memory_destroy_data
  | Memory_destroy_map

definition hashmap_create :: "nat \<Rightarrow> hashmap_t" where
  "hashmap_create cap = \<lparr>capacity = cap, map_length = 0, data = replicate cap []\<rparr>"

text \<open>The search loop of \<^verbatim>\<open>hashmap_put_custom\<close>: the chain with the value replaced, if the key is there.\<close>

fun put_loop ::
  "hashmap_entry_t list \<Rightarrow> string \<Rightarrow> ptr \<Rightarrow> free_fn_t \<Rightarrow> (hashmap_entry_t list \<times> event list) option"
where
  "put_loop [] k v free_fn = None"
| "put_loop (entry # next) k v free_fn =
     (if strcmp (key entry) k = 0
      then Some (entry\<lparr>val := v\<rparr> # next,
                 if free_fn \<noteq> Null_fn then [Call free_fn (val entry)] else [])
      else map_option (\<lambda>(chain, evs). (entry # chain, evs)) (put_loop next k v free_fn))"

text \<open>The growth loops: every node is pushed on the front of its new bucket.\<close>

fun rehash_chain ::
  "nat \<Rightarrow> hashmap_entry_t list \<Rightarrow> hashmap_entry_t list list \<Rightarrow> hashmap_entry_t list list"
where
  "rehash_chain new_length [] new_data = new_data"
| "rehash_chain new_length (entry # next) new_data =
     (let new_index = unat (hash_function (key entry)) mod new_length
      in rehash_chain new_length next (new_data[new_index := entry # new_data ! new_index]))"

fun rehash_buckets ::
  "nat \<Rightarrow> hashmap_entry_t list list \<Rightarrow> nat list \<Rightarrow> hashmap_entry_t list list \<Rightarrow> hashmap_entry_t list list"
where
  "rehash_buckets new_length old_data [] new_data = new_data"
| "rehash_buckets new_length old_data (i # is) new_data =
     rehash_buckets new_length old_data is (rehash_chain new_length (old_data ! i) new_data)"

definition hashmap_grow :: "hashmap_t \<Rightarrow> hashmap_t" where
  "hashmap_grow m =
     (let new_length = capacity m * 2;
          new_data = rehash_buckets new_length (data m) [0..<capacity m] (replicate new_length [])
      in m\<lparr>data := new_data, capacity := new_length\<rparr>)"

definition hashmap_put_custom ::
  "hashmap_t \<Rightarrow> string \<Rightarrow> ptr \<Rightarrow> free_fn_t \<Rightarrow> fault + unit \<times> hashmap_t \<times> event list"
where
  "hashmap_put_custom m k v free_fn =
     (if capacity m = 0 then Inl Division_by_zero
      else let index = unat (hash_function k) mod capacity m
           in case put_loop (data m ! index) k v free_fn of
                Some (chain, evs) \<Rightarrow> Inr ((), m\<lparr>data := (data m)[index := chain]\<rparr>, evs)
              | None \<Rightarrow>
                  let new_entry = \<lparr>key = strdup k, val = v\<rparr>;
                      m1 = m\<lparr>data := (data m)[index := new_entry # data m ! index],
                              map_length := map_length m + 1\<rparr>
                  in if load_factor_reached (map_length m1) (capacity m1)
                     then Inr ((), hashmap_grow m1, [Memory_destroy_data])
                     else Inr ((), m1, []))"

definition hashmap_put ::
  "hashmap_t \<Rightarrow> string \<Rightarrow> ptr \<Rightarrow> fault + unit \<times> hashmap_t \<times> event list"
where
  "hashmap_put m k v = hashmap_put_custom m k v Free"

fun get_loop :: "hashmap_entry_t list \<Rightarrow> string \<Rightarrow> ptr" where
  "get_loop [] k = NULL"
| "get_loop (entry # next) k = (if strcmp (key entry) k = 0 then val entry else get_loop next k)"

definition hashmap_get :: "hashmap_t \<Rightarrow> string \<Rightarrow> fault + ptr \<times> hashmap_t \<times> event list" where
  "hashmap_get m k =
     (if capacity m = 0 then Inl Division_by_zero
      else let index = unat (hash_function k) mod capacity m
           in Inr (get_loop (data m ! index) k, m, []))"

fun has_loop :: "hashmap_entry_t list \<Rightarrow> string \<Rightarrow> bool" where
  "has_loop [] k = False"
| "has_loop (entry # next) k = (if strcmp (key entry) k = 0 then True else has_loop next k)"

definition hashmap_has :: "hashmap_t \<Rightarrow> string \<Rightarrow> fault + bool \<times> hashmap_t \<times> event list" where
  "hashmap_has m k =
     (if capacity m = 0 then Inl Division_by_zero
      else let index = unat (hash_function k) mod capacity m
           in Inr (has_loop (data m ! index) k, m, []))"

text \<open>
  The loop of \<^verbatim>\<open>hashmap_remove\<close>: the chain without the first matching node (the
  bucket head or the predecessor's link now leads to its successor), and the node.
\<close>

fun remove_loop ::
  "hashmap_entry_t list \<Rightarrow> string \<Rightarrow> (hashmap_entry_t list \<times> hashmap_entry_t) option"
where
  "remove_loop [] k = None"
| "remove_loop (entry # next) k =
     (if strcmp (key entry) k = 0 then Some (next, entry)
      else map_option (\<lambda>(chain, e). (entry # chain, e)) (remove_loop next k))"

text \<open>\<^verbatim>\<open>map->length--\<close> on a \<^verbatim>\<open>size_t\<close> wraps at zero.\<close>

definition hashmap_remove :: "hashmap_t \<Rightarrow> string \<Rightarrow> fault + ptr \<times> hashmap_t \<times> event list" where
  "hashmap_remove m k =
     (if capacity m = 0 then Inl Division_by_zero
      else let index = unat (hash_function k) mod capacity m
           in case remove_loop (data m ! index) k of
                None \<Rightarrow> Inr (NULL, m, [])
              | Some (chain, entry) \<Rightarrow>
                  Inr (val entry,
                       m\<lparr>data := (data m)[index := chain],
                         map_length := (if map_length m = 0 then 2 ^ 64 - 1 else map_length m - 1)\<rparr>,
                       [Memory_destroy_key (key entry), Memory_destroy_entry entry]))"





text \<open>A finite sequence of mutating calls on one table; a fault ends it.\<close>

datatype operation =
    Put string ptr
  | Put_custom string ptr free_fn_t
  | Remove string

fun apply_operation :: "hashmap_t \<Rightarrow> operation \<Rightarrow> fault + hashmap_t" where
  "apply_operation m (Put k v) = map_sum id (\<lambda>(u, m', evs). m') (hashmap_put m k v)"
| "apply_operation m (Put_custom k v free_fn) =
     map_sum id (\<lambda>(u, m', evs). m') (hashmap_put_custom m k v free_fn)"
| "apply_operation m (Remove k) = map_sum id (\<lambda>(r, m', evs). m') (hashmap_remove m k)"

fun run :: "hashmap_t \<Rightarrow> operation list \<Rightarrow> fault + hashmap_t" where
  "run m [] = Inr m"
| "run m (x # xs) = (case apply_operation m x of Inl e \<Rightarrow> Inl e | Inr m' \<Rightarrow> run m' xs)"

section \<open>Keyword classification\<close>

datatype token_type_t =
    TOKEN_EOF
  | TOKEN_LEFT_BRACE
  | TOKEN_RIGHT_BRACE
  | TOKEN_LEFT_BRACKET
  | TOKEN_RIGHT_BRACKET
  | TOKEN_COLON
  | TOKEN_COMMA
  | TOKEN_LEFT_PAREN
  | TOKEN_RIGHT_PAREN
  | TOKEN_PLUS
  | TOKEN_MINUS
  | TOKEN_MULTIPLY
  | TOKEN_DIVIDE
  | TOKEN_MOD
  | TOKEN_POWER
  | TOKEN_ASSIGN
  | TOKEN_LESS
  | TOKEN_GREATER
  | TOKEN_NOT
  | TOKEN_NOT_EQUAL
  | TOKEN_EQUAL
  | TOKEN_AND_AND
  | TOKEN_OR_OR
  | TOKEN_AND_BIT
  | TOKEN_OR_BIT
  | TOKEN_LESS_EQUAL
  | TOKEN_GREATER_EQUAL
  | TOKEN_INCREMENT
  | TOKEN_DECREMENT
  | TOKEN_SHIFT_LEFT
  | TOKEN_SHIFT_RIGHT
  | TOKEN_SHIFT_LEFT_ASSIGN
  | TOKEN_SHIFT_RIGHT_ASSIGN
  | TOKEN_IDENTIFIER
  | TOKEN_STRING
  | TOKEN_NUMBER_INT
  | TOKEN_NUMBER_FLOAT
  | TOKEN_BOOLEAN
  | TOKEN_LAYOUT
  | TOKEN_IMPORT
  | TOKEN_FUNCTION
  | TOKEN_RETURN
  | TOKEN_PRINT
  | TOKEN_IF
  | TOKEN_ELSE
  | TOKEN_WHILE
  | TOKEN_FOR
  | TOKEN_BREAK
  | TOKEN_CONTINUE
  | TOKEN_ERROR

text \<open>The table \<^verbatim>\<open>keywords\<close> of \<^verbatim>\<open>lexer.h\<close>, in its declaration order.\<close>

definition keywords_table :: "(string \<times> token_type_t) list" where
  "keywords_table =
     [(''layout'', TOKEN_LAYOUT),
      (''import'', TOKEN_IMPORT),
      (''fn'', TOKEN_FUNCTION),
      (''return'', TOKEN_RETURN),
      (''if'', TOKEN_IF),
      (''print'', TOKEN_PRINT),
      (''else'', TOKEN_ELSE),
      (''while'', TOKEN_WHILE),
      (''for'', TOKEN_FOR),
      (''break'', TOKEN_BREAK),
      (''continue'', TOKEN_CONTINUE),
      (''true'', TOKEN_BOOLEAN),
      (''false'', TOKEN_BOOLEAN)]"

text \<open>
  Modelled from the spec: \<^verbatim>\<open>type_keyword\<close> is declared in \<^verbatim>\<open>lexer.h\<close> and defined in
  \<^verbatim>\<open>lexer.c\<close>, which is not among the sources. The complete lexeme is compared, in
  declaration order, with each name of the table; the first equal name gives the token
  type, and a lexeme equal to none is a generic identifier.
\<close>

fun type_keyword_loop :: "(string \<times> token_type_t) list \<Rightarrow> string \<Rightarrow> token_type_t" where
  "type_keyword_loop [] string = TOKEN_IDENTIFIER"
| "type_keyword_loop ((name, type) # rest) string =
     (if string = name then type else type_keyword_loop rest string)"

definition type_keyword :: "string \<Rightarrow> token_type_t" where
  "type_keyword string = type_keyword_loop keywords_table string"

section \<open>Well-formed tables\<close>

text \<open>All entries of a table, bucket by bucket, each chain from its head.\<close>

definition entries :: "hashmap_t \<Rightarrow> hashmap_entry_t list" where
  "entries m = concat (data m)"

text \<open>Every entry sits in the bucket its stored key hashes to, modulo the number of buckets.\<close>

definition bucket_ok :: "nat \<Rightarrow> hashmap_entry_t list list \<Rightarrow> bool" where
  "bucket_ok nl nd \<longleftrightarrow>
     (\<forall>j < nl. \<forall>e \<in> set (nd ! j). unat (hash_function (key e)) mod nl = j)"

text \<open>
  What \<^verbatim>\<open>hashmap_create\<close> establishes and every operation keeps: at least one bucket,
  as many chains as the capacity says, every entry in its own bucket, stored keys that
  are copies made by \<^verbatim>\<open>strdup\<close>, no key twice, and the entry count in \<^verbatim>\<open>length\<close>.
\<close>

definition hashmap_inv :: "hashmap_t \<Rightarrow> bool" where
  "hashmap_inv m \<longleftrightarrow>
     0 < capacity m \<and> length (data m) = capacity m \<and>
     bucket_ok (capacity m) (data m) \<and>
     (\<forall>e \<in> set (entries m). strdup (key e) = key e) \<and>
     distinct (map key (entries m)) \<and>
     map_length m = length (entries m)"

definition alist :: "hashmap_entry_t list \<Rightarrow> (string \<times> ptr) list" where
  "alist es = map (\<lambda>e. (key e, val e)) es"

text \<open>The value stored under a key, if any: keys are compared as C strings.\<close>

definition lookup :: "hashmap_t \<Rightarrow> string \<Rightarrow> ptr option" where
  "lookup m k = map_of (alist (entries m)) (strdup k)"

text \<open>The key an operation names and the value it leaves under it.\<close>

definition operation_key :: "operation \<Rightarrow> string" where
  "operation_key x = (case x of Put k v \<Rightarrow> k | Put_custom k v f \<Rightarrow> k | Remove k \<Rightarrow> k)"

definition operation_value :: "operation \<Rightarrow> ptr option" where
  "operation_value x = (case x of Put k v \<Rightarrow> Some v | Put_custom k v f \<Rightarrow> Some v | Remove k \<Rightarrow> None)"

text \<open>
  Last writer wins, in the spec's words: going back from the most recent operation, the
  first one on a key equal to \<open>k\<close> as a C string decides; a put leaves its value, a
  remove or no operation at all leaves nothing.
\<close>

fun last_write :: "operation list \<Rightarrow> string \<Rightarrow> ptr option" where
  "last_write [] k = None"
| "last_write (x # earlier) k =
     (if strcmp (operation_key x) k = 0 then operation_value x else last_write earlier k)"

section \<open>Lemmas\<close>

subsection \<open>C strings and the hash\<close>


lemma of_char_NUL: "(of_char NUL :: nat) = 0"
  by (simp add: NUL_def)

lemma of_char_eq_0_iff: "(of_char c :: nat) = 0 \<longleftrightarrow> c = NUL"
proof -
  have "(of_char c :: nat) = 0 \<longleftrightarrow> (of_char c :: nat) = of_char NUL"
    by (simp add: of_char_NUL)
  then show ?thesis by simp
qed

lemma unat_of_char: "unat (of_char c :: 8 word) = of_char c"
proof -
  have "(of_char c :: 8 word) = of_nat (of_char c)"
    by (simp add: of_nat_of_char)
  then have "unat (of_char c :: 8 word) = of_char c mod 256"
    by (simp add: unat_of_nat)
  then show ?thesis by simp
qed

lemma char_to_int_eq_0_iff: "char_to_int c = 0 \<longleftrightarrow> c = NUL"
proof -
  have "char_to_int c = 0 \<longleftrightarrow> (of_char c :: 8 word) = 0"
    by (simp add: char_to_int_def signed_eq_0_iff)
  also have "\<dots> \<longleftrightarrow> unat (of_char c :: 8 word) = 0"
    by (simp add: unat_eq_0)
  also have "\<dots> \<longleftrightarrow> c = NUL"
    by (simp add: unat_of_char of_char_eq_0_iff)
  finally show ?thesis .
qed

lemma char_to_int_signed:
  "char_to_int c = (if of_char c < (128 :: nat) then int (of_char c) else int (of_char c) - 256)"
proof -
  define k where "k = uint (of_char c :: 8 word)"
  have k: "k = int (of_char c)"
    unfolding k_def using unat_of_char [of c] by (metis uint_nat)
  have range: "0 \<le> k" "k < 256"
    using nat_of_char_less_256 [of c] by (simp_all add: k)
  have s: "char_to_int c = signed_take_bit 7 k"
    by (simp add: char_to_int_def sint_uint k_def)
  show ?thesis
  proof (cases "of_char c < (128 :: nat)")
    case True
    with k have "k < 128" by simp
    with range(1) have "signed_take_bit 7 k = k"
      by (intro signed_take_bit_int_eq_self) simp_all
    with s True k show ?thesis by simp
  next
    case False
    with k have lo: "128 \<le> k" by simp
    with range(2) have "k div 128 = 1" by simp
    then have "bit k 7" by (simp add: bit_iff_odd)
    moreover from range have "take_bit 8 k = k"
      by (simp add: take_bit_int_eq_self)
    ultimately have "signed_take_bit 7 k = k - 256"
      by (simp add: signed_take_bit_eq_take_bit_minus)
    with s False k show ?thesis by simp
  qed
qed

lemma strcmp_eq_0_iff: "strcmp a b = 0 \<longleftrightarrow> strdup a = strdup b"
  by (induction a b rule: strcmp.induct) (auto simp: of_char_eq_0_iff)

lemma strdup_idem [simp]: "strdup (strdup s) = strdup s"
  by (induction s) auto

lemma NUL_notin_strdup [simp]: "NUL \<notin> set (strdup s)"
  by (induction s) auto

lemma strcmp_canonical: "strdup a = a \<Longrightarrow> strcmp a k = 0 \<longleftrightarrow> a = strdup k"
  by (simp add: strcmp_eq_0_iff)

lemma strdup_replicate: "a \<noteq> NUL \<Longrightarrow> strdup (replicate n a) = replicate n a"
  by (induction n) auto

lemma strcmp_replicate:
  assumes "a \<noteq> NUL" "i \<noteq> j"
  shows "strcmp (replicate i a) (replicate j a) \<noteq> 0"
proof
  assume "strcmp (replicate i a) (replicate j a) = 0"
  then have "replicate i a = replicate j a"
    using assms(1) by (simp add: strcmp_eq_0_iff strdup_replicate)
  then have "length (replicate i a) = length (replicate j a)" by simp
  with assms(2) show False by simp
qed

lemma hash_loop_strdup: "hash_loop h (strdup s) = hash_loop h s"
  by (induction s arbitrary: h) (auto simp: char_to_int_eq_0_iff Let_def)

lemma hash_function_strdup [simp]: "hash_function (strdup s) = hash_function s"
  by (simp add: hash_function_def hash_loop_strdup)

lemma hash_loop_foldl:
  "hash_loop h s = foldl (\<lambda>h c. h * 33 + of_int (char_to_int c)) h (strdup s)"
proof (induction s arbitrary: h)
  case Nil
  then show ?case by simp
next
  case (Cons c s)
  have "push_bit 5 h + h = h * 33" for h :: ulong
    by (simp add: push_bit_eq_mult)
  with Cons show ?case
    by (simp add: char_to_int_eq_0_iff Let_def mult.commute)
qed

lemma hash_a: "unat (hash_function ''a'') = 177670"
  by (simp add: hash_function_def char_to_int_def)

lemma hash_b: "unat (hash_function ''b'') = 177671"
  by (simp add: hash_function_def char_to_int_def)

lemma hash_e: "unat (hash_function ''e'') = 177674"
  by (simp add: hash_function_def char_to_int_def)

subsection \<open>Arrays of chains\<close>

lemma concat_update:
  "i < length xs \<Longrightarrow> concat (xs[i := y]) = concat (take i xs) @ y @ concat (drop (Suc i) xs)"
  by (simp add: upd_conv_take_nth_drop)

lemma concat_nth_split:
  "i < length xs \<Longrightarrow> concat xs = concat (take i xs) @ xs ! i @ concat (drop (Suc i) xs)"
  by (metis concat_update list_update_id)

lemma mset_concat_update:
  "i < length xs \<Longrightarrow> mset (concat (xs[i := y])) + mset (xs ! i) = mset (concat xs) + mset y"
  using concat_update [of i xs y] concat_nth_split [of i xs] by simp

lemma set_nth_concat: "i < length xs \<Longrightarrow> set (xs ! i) \<subseteq> set (concat xs)"
  by (auto intro!: bexI [of _ "xs ! i"])

lemma in_concat_nth: "e \<in> set (concat xs) \<Longrightarrow> \<exists>i < length xs. e \<in> set (xs ! i)"
  by (metis UN_E in_set_conv_nth set_concat)

subsection \<open>The loops over a chain\<close>

lemma map_fst_alist [simp]: "map fst (alist es) = map key es"
  by (simp add: alist_def)

lemma set_alist: "set (alist es) = (\<lambda>e. (key e, val e)) ` set es"
  by (simp add: alist_def)

lemma map_of_eqI:
  assumes "distinct (map fst xs)" "distinct (map fst ys)"
    and "\<And>v. (k, v) \<in> set xs \<longleftrightarrow> (k, v) \<in> set ys"
  shows "map_of xs k = map_of ys k"
proof (cases "map_of ys k")
  case None
  then have "\<And>v. (k, v) \<notin> set ys"
    by (metis assms(2) map_of_eq_Some_iff option.distinct(1))
  with assms(3) have "\<And>v. (k, v) \<notin> set xs" by simp
  then have "map_of xs k = None"
    by (meson map_of_SomeD not_Some_eq)
  with None show ?thesis by simp
next
  case (Some v)
  then have "(k, v) \<in> set ys" by (rule map_of_SomeD)
  with assms(3) have "(k, v) \<in> set xs" by simp
  with assms(1) have "map_of xs k = Some v" by simp
  with Some show ?thesis by simp
qed

lemma get_loop_map_of:
  "\<forall>e \<in> set chain. strdup (key e) = key e \<Longrightarrow>
   get_loop chain k = (case map_of (alist chain) (strdup k) of None \<Rightarrow> NULL | Some v \<Rightarrow> v)"
  by (induction chain) (auto simp: alist_def strcmp_eq_0_iff)

lemma has_loop_map_of:
  "\<forall>e \<in> set chain. strdup (key e) = key e \<Longrightarrow>
   has_loop chain k \<longleftrightarrow> map_of (alist chain) (strdup k) \<noteq> None"
  by (induction chain) (auto simp: alist_def strcmp_eq_0_iff)

lemma put_loop_None:
  "\<forall>e \<in> set chain. strdup (key e) = key e \<Longrightarrow>
   put_loop chain k v f = None \<longleftrightarrow> strdup k \<notin> key ` set chain"
  by (induction chain) (auto simp: strcmp_eq_0_iff)

lemma put_loop_Some:
  "put_loop chain k v f = Some (chain', evs) \<Longrightarrow>
   \<exists>xs e ys. chain = xs @ e # ys \<and> strcmp (key e) k = 0 \<and> (\<forall>x \<in> set xs. strcmp (key x) k \<noteq> 0) \<and>
     chain' = xs @ e\<lparr>val := v\<rparr> # ys \<and>
     evs = (if f \<noteq> Null_fn then [Call f (val e)] else [])"
proof (induction chain arbitrary: chain')
  case Nil
  then show ?case by simp
next
  case (Cons a chain)
  show ?case
  proof (cases "strcmp (key a) k = 0")
    case True
    with Cons.prems have "a # chain = [] @ a # chain \<and> chain' = [] @ a\<lparr>val := v\<rparr> # chain \<and> evs = (if f \<noteq> Null_fn then [Call f (val a)] else [])"
      by auto
    with True show ?thesis by (metis empty_iff list.set(1))
  next
    case False
    with Cons.prems obtain c where c: "put_loop chain k v f = Some (c, evs)" "chain' = a # c"
      by auto
    from Cons.IH [OF c(1)] obtain xs e ys where
      "chain = xs @ e # ys" "strcmp (key e) k = 0" "\<forall>x \<in> set xs. strcmp (key x) k \<noteq> 0"
      "c = xs @ e\<lparr>val := v\<rparr> # ys" "evs = (if f \<noteq> Null_fn then [Call f (val e)] else [])"
      by blast
    with False c(2) have "a # chain = (a # xs) @ e # ys \<and> strcmp (key e) k = 0 \<and>
       (\<forall>x \<in> set (a # xs). strcmp (key x) k \<noteq> 0) \<and> chain' = (a # xs) @ e\<lparr>val := v\<rparr> # ys \<and>
       evs = (if f \<noteq> Null_fn then [Call f (val e)] else [])"
      by simp
    then show ?thesis by blast
  qed
qed

lemma remove_loop_None:
  "\<forall>e \<in> set chain. strdup (key e) = key e \<Longrightarrow>
   remove_loop chain k = None \<longleftrightarrow> strdup k \<notin> key ` set chain"
  by (induction chain) (auto simp: strcmp_eq_0_iff)

lemma remove_loop_Some:
  "remove_loop chain k = Some (chain', e) \<Longrightarrow>
   \<exists>xs ys. chain = xs @ e # ys \<and> strcmp (key e) k = 0 \<and> (\<forall>x \<in> set xs. strcmp (key x) k \<noteq> 0) \<and>
     chain' = xs @ ys"
proof (induction chain arbitrary: chain')
  case Nil
  then show ?case by simp
next
  case (Cons a chain)
  show ?case
  proof (cases "strcmp (key a) k = 0")
    case True
    with Cons.prems have "a # chain = [] @ e # chain \<and> chain' = [] @ chain \<and> a = e"
      by auto
    with True show ?thesis by (metis empty_iff list.set(1))
  next
    case False
    with Cons.prems obtain c where c: "remove_loop chain k = Some (c, e)" "chain' = a # c"
      by auto
    from Cons.IH [OF c(1)] obtain xs ys where
      "chain = xs @ e # ys" "strcmp (key e) k = 0" "\<forall>x \<in> set xs. strcmp (key x) k \<noteq> 0"
      "c = xs @ ys"
      by blast
    with False c(2) have "a # chain = (a # xs) @ e # ys \<and> strcmp (key e) k = 0 \<and>
       (\<forall>x \<in> set (a # xs). strcmp (key x) k \<noteq> 0) \<and> chain' = (a # xs) @ ys"
      by simp
    then show ?thesis by blast
  qed
qed

subsection \<open>Well-formed tables\<close>

lemma bucket_okD: "bucket_ok nl nd \<Longrightarrow> j < nl \<Longrightarrow> e \<in> set (nd ! j) \<Longrightarrow> unat (hash_function (key e)) mod nl = j"
  unfolding bucket_ok_def by blast

lemma bucket_okI: "(\<And>j e. j < nl \<Longrightarrow> e \<in> set (nd ! j) \<Longrightarrow> unat (hash_function (key e)) mod nl = j) \<Longrightarrow> bucket_ok nl nd"
  unfolding bucket_ok_def by blast

lemma hashmap_inv_bucket:
  "hashmap_inv m \<Longrightarrow> j < capacity m \<Longrightarrow> e \<in> set (data m ! j) \<Longrightarrow>
   unat (hash_function (key e)) mod capacity m = j"
  unfolding hashmap_inv_def by (blast dest: bucket_okD)

lemma inv_chain_subset:
  "hashmap_inv m \<Longrightarrow> i < capacity m \<Longrightarrow> set (data m ! i) \<subseteq> set (entries m)"
  unfolding entries_def hashmap_inv_def using set_nth_concat [of i "data m"] by simp

lemma inv_chain_distinct:
  assumes "hashmap_inv m" "i < capacity m"
  shows "distinct (map key (data m ! i))"
proof -
  from assms have "i < length (data m)" by (simp add: hashmap_inv_def)
  from concat_nth_split [OF this] have "entries m = concat (take i (data m)) @ data m ! i @ concat (drop (Suc i) (data m))"
    by (simp add: entries_def)
  moreover from assms have "distinct (map key (entries m))" by (simp add: hashmap_inv_def)
  ultimately show ?thesis by simp
qed

lemma inv_bucket_mem:
  assumes "hashmap_inv m" "e \<in> set (entries m)" "key e = strdup k"
  shows "e \<in> set (data m ! (unat (hash_function k) mod capacity m))"
proof -
  from assms(2) obtain i where i: "i < length (data m)" "e \<in> set (data m ! i)"
    unfolding entries_def by (blast dest: in_concat_nth)
  with assms(1) have "unat (hash_function (key e)) mod capacity m = i"
    by (auto simp: hashmap_inv_def dest: bucket_okD)
  with assms(3) i(2) show ?thesis by simp
qed

lemma inv_chain_lookup:
  assumes "hashmap_inv m"
  shows "map_of (alist (data m ! (unat (hash_function k) mod capacity m))) (strdup k) = lookup m k"
proof -
  define i where "i = unat (hash_function k) mod capacity m"
  from assms have i: "i < capacity m" by (simp add: hashmap_inv_def i_def)
  have "(strdup k, v) \<in> set (alist (data m ! i)) \<longleftrightarrow> (strdup k, v) \<in> set (alist (entries m))" for v
    using inv_chain_subset [OF assms i] inv_bucket_mem [OF assms, of _ k]
    by (auto simp: set_alist i_def)
  moreover have "distinct (map fst (alist (data m ! i)))"
    using inv_chain_distinct [OF assms i] by simp
  moreover have "distinct (map fst (alist (entries m)))"
    using assms by (simp add: hashmap_inv_def)
  ultimately have "map_of (alist (data m ! i)) (strdup k) = map_of (alist (entries m)) (strdup k)"
    by (intro map_of_eqI) auto
  then show ?thesis by (simp add: lookup_def i_def)
qed

lemma inv_chain_canonical:
  "hashmap_inv m \<Longrightarrow> i < capacity m \<Longrightarrow> \<forall>e \<in> set (data m ! i). strdup (key e) = key e"
  using inv_chain_subset [of m i] by (auto simp: hashmap_inv_def)

lemma hashmap_get_lookup:
  assumes "hashmap_inv m"
  shows "hashmap_get m k = Inr (case lookup m k of None \<Rightarrow> NULL | Some v \<Rightarrow> v, m, [])"
proof -
  define i where "i = unat (hash_function k) mod capacity m"
  from assms have i: "i < capacity m" by (simp add: hashmap_inv_def i_def)
  from get_loop_map_of [OF inv_chain_canonical [OF assms i], of k]
  show ?thesis
    using i inv_chain_lookup [OF assms, of k] by (simp add: hashmap_get_def i_def)
qed

lemma hashmap_has_lookup:
  assumes "hashmap_inv m"
  shows "hashmap_has m k = Inr (lookup m k \<noteq> None, m, [])"
proof -
  define i where "i = unat (hash_function k) mod capacity m"
  from assms have i: "i < capacity m" by (simp add: hashmap_inv_def i_def)
  from has_loop_map_of [OF inv_chain_canonical [OF assms i], of k]
  show ?thesis
    using i inv_chain_lookup [OF assms, of k] by (simp add: hashmap_has_def i_def)
qed

lemma hashmap_create_inv: "1 \<le> c \<Longrightarrow> hashmap_inv (hashmap_create c)"
  by (simp add: hashmap_inv_def hashmap_create_def entries_def bucket_ok_def)

lemma hashmap_create_lookup: "lookup (hashmap_create c) k = None"
  by (simp add: lookup_def hashmap_create_def entries_def alist_def)

lemma entries_update_simps [simp]:
  "entries (m\<lparr>map_length := n\<rparr>) = entries m"
  "entries (m\<lparr>data := d\<rparr>) = concat d"
  by (simp_all add: entries_def)

lemma entries_replace:
  assumes "i < length (data m)" "data m ! i = xs @ c @ ys"
  shows "\<exists>R. mset (entries m) = mset c + mset R \<and>
             (\<forall>c'. mset (concat ((data m)[i := xs @ c' @ ys])) = mset c' + mset R)"
proof -
  let ?R = "concat (take i (data m)) @ xs @ ys @ concat (drop (Suc i) (data m))"
  have "mset (entries m) = mset c + mset ?R"
    using concat_nth_split [OF assms(1)] assms(2) by (simp add: entries_def)
  moreover have "mset (concat ((data m)[i := xs @ c' @ ys])) = mset c' + mset ?R" for c'
    using concat_update [OF assms(1), of "xs @ c' @ ys"] by simp
  ultimately show ?thesis by blast
qed

lemma map_of_alist_mset_cong:
  assumes "mset es' = mset es" "distinct (map key es)"
  shows "map_of (alist es') x = map_of (alist es) x"
proof -
  from assms(1) have "mset (map key es') = mset (map key es)"
    by (metis mset_map)
  with assms(2) have d: "distinct (map key es')"
    by (metis mset_eq_imp_distinct_iff)
  from assms(1) have "set es' = set es" by (rule mset_eq_setD)
  then have "set (alist es') = set (alist es)" by (simp add: set_alist)
  with d assms(2) show ?thesis
    by (intro map_of_eqI) auto
qed

lemma lookup_mset_cong:
  assumes "mset (entries m') = mset (entries m)" "distinct (map key (entries m))"
  shows "lookup m' k = lookup m k"
proof -
  from assms(1) have "mset (map key (entries m')) = mset (map key (entries m))"
    by (metis mset_map)
  with assms(2) have d: "distinct (map key (entries m'))"
    by (metis mset_eq_imp_distinct_iff)
  from assms(1) have "set (entries m') = set (entries m)" by (rule mset_eq_setD)
  then have "set (alist (entries m')) = set (alist (entries m))" by (simp add: set_alist)
  with d assms(2) show ?thesis
    unfolding lookup_def by (intro map_of_eqI) auto
qed

lemma inv_mset_cong:
  assumes "hashmap_inv m" "mset (entries m') = mset (entries m)"
    and "0 < capacity m'" "length (data m') = capacity m'" "map_length m' = map_length m"
    and "bucket_ok (capacity m') (data m')"
  shows "hashmap_inv m'"
proof -
  from assms(2) have "mset (map key (entries m')) = mset (map key (entries m))"
    by (metis mset_map)
  moreover from assms(1) have "distinct (map key (entries m))" by (simp add: hashmap_inv_def)
  ultimately have "distinct (map key (entries m'))"
    by (metis mset_eq_imp_distinct_iff)
  moreover from assms(2) have "set (entries m') = set (entries m)" by (rule mset_eq_setD)
  moreover from assms(2) have "length (entries m') = length (entries m)" by (rule mset_eq_length)
  ultimately show ?thesis
    using assms(1,3-6) by (simp add: hashmap_inv_def)
qed

lemma lookup_from_mset:
  "mset (entries m') = mset es \<Longrightarrow> distinct (map key es) \<Longrightarrow>
   lookup m' k = map_of (alist es) (strdup k)"
  unfolding lookup_def by (rule map_of_alist_mset_cong)

lemma inv_from_mset:
  assumes "mset (entries m') = mset es" "distinct (map key es)"
    and "\<forall>e \<in> set es. strdup (key e) = key e" "map_length m' = length es"
    and "0 < capacity m'" "length (data m') = capacity m'" "bucket_ok (capacity m') (data m')"
  shows "hashmap_inv m'"
proof -
  from assms(1) have "mset (map key (entries m')) = mset (map key es)"
    by (metis mset_map)
  with assms(2) have "distinct (map key (entries m'))"
    by (metis mset_eq_imp_distinct_iff)
  moreover from assms(1) have "set (entries m') = set es" by (rule mset_eq_setD)
  moreover from assms(1) have "length (entries m') = length es" by (rule mset_eq_length)
  ultimately show ?thesis
    using assms(3-7) by (simp add: hashmap_inv_def)
qed

lemma bucket_ok_replace:
  assumes "bucket_ok nl d" "i < nl" "length d = nl"
    and "\<And>x. x \<in> set c' \<Longrightarrow> \<exists>y \<in> set (d ! i). key x = key y"
  shows "bucket_ok nl (d[i := c'])"
proof (rule bucket_okI)
  fix j x
  assume j: "j < nl" and x: "x \<in> set (d[i := c'] ! j)"
  show "unat (hash_function (key x)) mod nl = j"
  proof (cases "j = i")
    case True
    with x assms(2,3) have "x \<in> set c'" by simp
    with assms(4) obtain y where "y \<in> set (d ! i)" "key x = key y" by blast
    with bucket_okD [OF assms(1,2)] True show ?thesis by metis
  next
    case False
    with x have "x \<in> set (d ! j)" by simp
    with bucket_okD [OF assms(1) j] show ?thesis by blast
  qed
qed

lemma lookup_None_iff:
  "lookup m k = None \<longleftrightarrow> strdup k \<notin> key ` set (entries m)"
  by (simp add: lookup_def map_of_eq_None_iff set_alist image_image)

lemma has_entry_iff:
  assumes "hashmap_inv m"
  shows "lookup m k \<noteq> None \<longleftrightarrow> (\<exists>e \<in> set (entries m). strcmp (key e) k = 0)"
proof -
  from assms have "\<forall>e \<in> set (entries m). strdup (key e) = key e"
    by (simp add: hashmap_inv_def)
  then have "(\<exists>e \<in> set (entries m). strcmp (key e) k = 0) \<longleftrightarrow> strdup k \<in> key ` set (entries m)"
    by (force simp: strcmp_canonical)
  then show ?thesis by (simp add: lookup_None_iff)
qed

lemma hashmap_has_True_iff:
  assumes "hashmap_inv m"
  shows "hashmap_has m k = Inr (True, m, []) \<longleftrightarrow> lookup m k \<noteq> None"
  using hashmap_has_lookup [OF assms, of k] by auto

lemma hashmap_has_False_iff:
  assumes "hashmap_inv m"
  shows "hashmap_has m k = Inr (False, m, []) \<longleftrightarrow> lookup m k = None"
  using hashmap_has_lookup [OF assms, of k] by auto

subsection \<open>Growth\<close>

lemma rehash_chain_length [simp]: "length (rehash_chain nl chain nd) = length nd"
  by (induction chain arbitrary: nd) (auto simp: Let_def)

lemma rehash_chain_mset:
  "0 < nl \<Longrightarrow> length nd = nl \<Longrightarrow>
   mset (concat (rehash_chain nl chain nd)) = mset chain + mset (concat nd)"
proof (induction chain arbitrary: nd)
  case Nil
  then show ?case by simp
next
  case (Cons e chain)
  define j where "j = unat (hash_function (key e)) mod nl"
  from Cons.prems have j: "j < length nd" by (simp add: j_def)
  have "mset (concat (nd[j := e # nd ! j])) = add_mset e (mset (concat nd))"
    using mset_concat_update [OF j, of "e # nd ! j"] by simp
  with Cons.IH [of "nd[j := e # nd ! j]"] Cons.prems show ?case
    by (simp add: Let_def j_def)
qed

lemma upd_bucket:
  assumes "j < nl" "length nd = nl" "i < nl" "x \<in> set (nd[i := e # nd ! i] ! j)"
  shows "x = e \<and> j = i \<or> x \<in> set (nd ! j)"
proof (cases "j = i")
  case True
  with assms show ?thesis by simp
next
  case False
  with assms show ?thesis by simp
qed

lemma bucket_ok_push:
  assumes "0 < nl" "length nd = nl" "bucket_ok nl nd" "i = unat (hash_function (key e)) mod nl"
  shows "bucket_ok nl (nd[i := e # nd ! i])"
proof (rule bucket_okI)
  fix j x
  assume j: "j < nl" and x: "x \<in> set (nd[i := e # nd ! i] ! j)"
  from assms(1,4) have i: "i < nl" by simp
  from upd_bucket [OF j assms(2) i x] have "x = e \<and> j = i \<or> x \<in> set (nd ! j)" .
  then show "unat (hash_function (key x)) mod nl = j"
    using assms(4) bucket_okD [OF assms(3) j] by blast
qed

lemma rehash_chain_bucket_ok:
  "0 < nl \<Longrightarrow> length nd = nl \<Longrightarrow> bucket_ok nl nd \<Longrightarrow> bucket_ok nl (rehash_chain nl chain nd)"
proof (induction chain arbitrary: nd)
  case Nil
  then show ?case by simp
next
  case (Cons e chain)
  define i where "i = unat (hash_function (key e)) mod nl"
  define nd' where "nd' = nd[i := e # nd ! i]"
  have "bucket_ok nl nd'"
    unfolding nd'_def using Cons.prems i_def by (rule bucket_ok_push)
  moreover have "length nd' = nl" using Cons.prems(2) by (simp add: nd'_def)
  ultimately have "bucket_ok nl (rehash_chain nl chain nd')"
    using Cons.IH [of nd'] Cons.prems(1) by blast
  moreover have "rehash_chain nl (e # chain) nd = rehash_chain nl chain nd'"
    by (simp add: Let_def i_def nd'_def)
  ultimately show ?case by simp
qed

lemma rehash_buckets_length [simp]: "length (rehash_buckets nl d is nd) = length nd"
  by (induction "is" arbitrary: nd) auto

lemma rehash_buckets_mset:
  "0 < nl \<Longrightarrow> length nd = nl \<Longrightarrow>
   mset (concat (rehash_buckets nl d is nd)) = mset (concat (map ((!) d) is)) + mset (concat nd)"
proof (induction "is" arbitrary: nd)
  case Nil
  then show ?case by simp
next
  case (Cons i "is")
  from Cons.IH [of "rehash_chain nl (d ! i) nd"] Cons.prems
  show ?case by (simp add: rehash_chain_mset)
qed

lemma rehash_buckets_bucket_ok:
  "0 < nl \<Longrightarrow> length nd = nl \<Longrightarrow> bucket_ok nl nd \<Longrightarrow> bucket_ok nl (rehash_buckets nl d is nd)"
proof (induction "is" arbitrary: nd)
  case Nil
  then show ?case by simp
next
  case (Cons i "is")
  from rehash_chain_bucket_ok [OF Cons.prems, of "d ! i"] Cons.IH [of "rehash_chain nl (d ! i) nd"] Cons.prems
  show ?case by simp
qed

lemma hashmap_grow_fields:
  "capacity (hashmap_grow m) = capacity m * 2"
  "map_length (hashmap_grow m) = map_length m"
  "length (data (hashmap_grow m)) = capacity m * 2"
  by (simp_all add: hashmap_grow_def Let_def)

lemma hashmap_grow_mset:
  assumes "0 < capacity m" "length (data m) = capacity m"
  shows "mset (entries (hashmap_grow m)) = mset (entries m)"
proof -
  have "map ((!) (data m)) [0..<capacity m] = data m"
    using assms(2) by (metis map_nth)
  with rehash_buckets_mset [of "capacity m * 2" "replicate (capacity m * 2) []" "data m" "[0..<capacity m]"] assms(1)
  show ?thesis
    by (simp add: hashmap_grow_def Let_def entries_def)
qed

lemma hashmap_grow_bucket_ok:
  assumes "0 < capacity m"
  shows "bucket_ok (capacity m * 2) (data (hashmap_grow m))"
proof -
  have "bucket_ok (capacity m * 2) (replicate (capacity m * 2) [])"
    by (simp add: bucket_ok_def)
  with assms have "bucket_ok (capacity m * 2)
      (rehash_buckets (capacity m * 2) (data m) [0..<capacity m] (replicate (capacity m * 2) []))"
    by (intro rehash_buckets_bucket_ok) simp_all
  then show ?thesis by (simp add: hashmap_grow_def Let_def)
qed

lemma hashmap_grow_inv:
  assumes "hashmap_inv m"
  shows "hashmap_inv (hashmap_grow m)"
proof -
  from assms have c: "0 < capacity m" "length (data m) = capacity m"
    by (simp_all add: hashmap_inv_def)
  show ?thesis
  proof (rule inv_mset_cong [OF assms])
    show "mset (entries (hashmap_grow m)) = mset (entries m)"
      by (rule hashmap_grow_mset [OF c])
    show "0 < capacity (hashmap_grow m)"
      using c(1) by (simp add: hashmap_grow_fields)
    show "length (data (hashmap_grow m)) = capacity (hashmap_grow m)"
      by (simp add: hashmap_grow_fields)
    show "map_length (hashmap_grow m) = map_length m"
      by (simp add: hashmap_grow_fields)
    show "bucket_ok (capacity (hashmap_grow m)) (data (hashmap_grow m))"
      using hashmap_grow_bucket_ok [OF c(1)] by (simp add: hashmap_grow_fields)
  qed
qed

lemma hashmap_grow_lookup:
  assumes "hashmap_inv m"
  shows "lookup (hashmap_grow m) k = lookup m k"
proof -
  from assms have c: "0 < capacity m" "length (data m) = capacity m"
    by (simp_all add: hashmap_inv_def)
  from assms have "distinct (map key (entries m))" by (simp add: hashmap_inv_def)
  with hashmap_grow_mset [OF c] show ?thesis by (rule lookup_mset_cong)
qed

subsection \<open>Insertion, overwriting and removal\<close>

text \<open>Insertion of an absent key, before the load-factor test.\<close>

lemma insert_absent:
  assumes "hashmap_inv m" "lookup m k = None"
    and "i = unat (hash_function k) mod capacity m"
    and "m1 = m\<lparr>data := (data m)[i := \<lparr>key = strdup k, val = v\<rparr> # data m ! i],
                  map_length := map_length m + 1\<rparr>"
  shows "put_loop (data m ! i) k v f = None"
    and "hashmap_inv m1"
    and "lookup m1 k' = (if strdup k' = strdup k then Some v else lookup m k')"
    and "mset (entries m1) = add_mset \<lparr>key = strdup k, val = v\<rparr> (mset (entries m))"
proof -
  define e where "e = \<lparr>key = strdup k, val = v\<rparr>"
  from assms(1,3) have i: "i < capacity m" "i < length (data m)"
    by (simp_all add: hashmap_inv_def)
  from assms(2) have absent: "strdup k \<notin> key ` set (entries m)"
    by (simp add: lookup_None_iff)
  with inv_chain_subset [OF assms(1) i(1)] have "strdup k \<notin> key ` set (data m ! i)"
    by blast
  with put_loop_None [OF inv_chain_canonical [OF assms(1) i(1)], of k v f]
  show "put_loop (data m ! i) k v f = None" by simp
  have "mset (concat ((data m)[i := e # data m ! i])) + mset (data m ! i)
        = mset (concat (data m)) + mset (e # data m ! i)"
    by (rule mset_concat_update [OF i(2)])
  then have ms: "mset (entries m1) = mset (e # entries m)"
    by (simp add: assms(4) e_def entries_def)
  then show "mset (entries m1) = add_mset \<lparr>key = strdup k, val = v\<rparr> (mset (entries m))"
    by (simp add: e_def)
  from assms(1) absent have d: "distinct (map key (e # entries m))"
    by (simp add: hashmap_inv_def e_def)
  have b: "bucket_ok (capacity m) ((data m)[i := e # data m ! i])"
  proof (rule bucket_ok_push)
    show "0 < capacity m" "length (data m) = capacity m" "bucket_ok (capacity m) (data m)"
      using assms(1) by (simp_all add: hashmap_inv_def)
    show "i = unat (hash_function (key e)) mod capacity m"
      by (simp add: assms(3) e_def)
  qed
  show "hashmap_inv m1"
  proof (rule inv_from_mset [OF ms d])
    show "\<forall>x \<in> set (e # entries m). strdup (key x) = key x"
      using assms(1) by (simp add: hashmap_inv_def e_def)
    show "map_length m1 = length (e # entries m)"
      using assms(1) by (simp add: hashmap_inv_def assms(4))
    show "0 < capacity m1" "length (data m1) = capacity m1"
      using assms(1) by (simp_all add: hashmap_inv_def assms(4))
    show "bucket_ok (capacity m1) (data m1)"
      using b by (simp add: assms(4) e_def)
  qed
  from lookup_from_mset [OF ms d, of k']
  show "lookup m1 k' = (if strdup k' = strdup k then Some v else lookup m k')"
    by (simp add: alist_def e_def lookup_def)
qed

lemma overwrite_present:
  assumes "hashmap_inv m" "i = unat (hash_function k) mod capacity m"
    and "data m ! i = xs @ e # ys" "strcmp (key e) k = 0"
    and "m' = m\<lparr>data := (data m)[i := xs @ e\<lparr>val := v\<rparr> # ys]\<rparr>"
  shows "hashmap_inv m'"
    and "lookup m' k' = (if strdup k' = strdup k then Some v else lookup m k')"
    and "lookup m k = Some (val e)"
proof -
  from assms(1,2) have i: "i < capacity m" "i < length (data m)"
    by (simp_all add: hashmap_inv_def)
  from entries_replace [OF i(2), of xs "[e]" ys] assms(3) obtain R where
    R: "mset (entries m) = mset (e # R)"
       "\<And>c'. mset (concat ((data m)[i := xs @ c' @ ys])) = mset c' + mset R"
    by auto
  from R(2) [of "[e\<lparr>val := v\<rparr>]"] have ms: "mset (entries m') = mset (e\<lparr>val := v\<rparr> # R)"
    by (simp add: assms(5))
  from assms(1) have "distinct (map key (entries m))" by (simp add: hashmap_inv_def)
  moreover from R(1) have "mset (map key (entries m)) = mset (map key (e # R))"
    by (metis mset_map)
  ultimately have d: "distinct (map key (e # R))"
    by (metis mset_eq_imp_distinct_iff)
  then have d': "distinct (map key (e\<lparr>val := v\<rparr> # R))" by simp
  from R(1) have "set (entries m) = set (e # R)" by (rule mset_eq_setD)
  with assms(1) have canon: "\<forall>x \<in> set (e # R). strdup (key x) = key x"
    by (simp add: hashmap_inv_def)
  with assms(4) have ke: "key e = strdup k" by (simp add: strcmp_canonical)
  from assms(1) R(1) have len: "map_length m = length (e # R)"
    by (metis hashmap_inv_def mset_eq_length)
  show "hashmap_inv m'"
  proof (rule inv_from_mset [OF ms d'])
    show "\<forall>x \<in> set (e\<lparr>val := v\<rparr> # R). strdup (key x) = key x"
      using canon by simp
    show "map_length m' = length (e\<lparr>val := v\<rparr> # R)"
      using len by (simp add: assms(5))
    show "0 < capacity m'" "length (data m') = capacity m'"
      using assms(1) by (simp_all add: hashmap_inv_def assms(5))
    have "bucket_ok (capacity m) ((data m)[i := xs @ e\<lparr>val := v\<rparr> # ys])"
    proof (rule bucket_ok_replace)
      show "bucket_ok (capacity m) (data m)" "length (data m) = capacity m"
        using assms(1) by (simp_all add: hashmap_inv_def)
      show "i < capacity m" by (rule i(1))
      fix x assume "x \<in> set (xs @ e\<lparr>val := v\<rparr> # ys)"
      then have "x \<in> set (xs @ e # ys) \<or> key x = key e" by auto
      then show "\<exists>y \<in> set (data m ! i). key x = key y"
        unfolding assms(3) by auto
    qed
    then show "bucket_ok (capacity m') (data m')" by (simp add: assms(5))
  qed
  from lookup_from_mset [OF R(1) d, of k] ke
  show "lookup m k = Some (val e)"
    by (simp add: alist_def)
  from lookup_from_mset [OF ms d', of k'] lookup_from_mset [OF R(1) d, of k'] ke
  show "lookup m' k' = (if strdup k' = strdup k then Some v else lookup m k')"
    by (simp add: alist_def)
qed

lemma remove_present:
  assumes "hashmap_inv m" "i = unat (hash_function k) mod capacity m"
    and "data m ! i = xs @ e # ys" "strcmp (key e) k = 0"
    and "m' = m\<lparr>data := (data m)[i := xs @ ys],
                  map_length := (if map_length m = 0 then 2 ^ 64 - 1 else map_length m - 1)\<rparr>"
  shows "hashmap_inv m'"
    and "lookup m' k' = (if strdup k' = strdup k then None else lookup m k')"
    and "lookup m k = Some (val e)"
    and "map_length m' + 1 = map_length m"
proof -
  from assms(1,2) have i: "i < capacity m" "i < length (data m)"
    by (simp_all add: hashmap_inv_def)
  from entries_replace [OF i(2), of xs "[e]" ys] assms(3) obtain R where
    R: "mset (entries m) = mset (e # R)"
       "\<And>c'. mset (concat ((data m)[i := xs @ c' @ ys])) = mset c' + mset R"
    by auto
  from R(2) [of "[]"] have ms: "mset (entries m') = mset R"
    by (simp add: assms(5))
  from assms(1) have "distinct (map key (entries m))" by (simp add: hashmap_inv_def)
  moreover from R(1) have "mset (map key (entries m)) = mset (map key (e # R))"
    by (metis mset_map)
  ultimately have d: "distinct (map key (e # R))"
    by (metis mset_eq_imp_distinct_iff)
  then have d': "distinct (map key R)" by simp
  from R(1) have "set (entries m) = set (e # R)" by (rule mset_eq_setD)
  with assms(1) have canon: "\<forall>x \<in> set (e # R). strdup (key x) = key x"
    by (simp add: hashmap_inv_def)
  with assms(4) have ke: "key e = strdup k" by (simp add: strcmp_canonical)
  from assms(1) R(1) have len: "map_length m = length (e # R)"
    by (metis hashmap_inv_def mset_eq_length)
  then show "map_length m' + 1 = map_length m"
    by (simp add: assms(5))
  show "hashmap_inv m'"
  proof (rule inv_from_mset [OF ms d'])
    show "\<forall>x \<in> set R. strdup (key x) = key x"
      using canon by simp
    show "map_length m' = length R"
      using len by (simp add: assms(5))
    show "0 < capacity m'" "length (data m') = capacity m'"
      using assms(1) by (simp_all add: hashmap_inv_def assms(5))
    have "bucket_ok (capacity m) ((data m)[i := xs @ ys])"
    proof (rule bucket_ok_replace)
      show "bucket_ok (capacity m) (data m)" "length (data m) = capacity m"
        using assms(1) by (simp_all add: hashmap_inv_def)
      show "i < capacity m" by (rule i(1))
      fix x assume "x \<in> set (xs @ ys)"
      then show "\<exists>y \<in> set (data m ! i). key x = key y"
        unfolding assms(3) by auto
    qed
    then show "bucket_ok (capacity m') (data m')" by (simp add: assms(5))
  qed
  from lookup_from_mset [OF R(1) d, of k] ke
  show "lookup m k = Some (val e)"
    by (simp add: alist_def)
  from d ke have "map_of (alist R) (strdup k) = None"
    by (simp add: map_of_eq_None_iff set_alist image_image)
  with lookup_from_mset [OF ms d', of k'] lookup_from_mset [OF R(1) d, of k'] ke
  show "lookup m' k' = (if strdup k' = strdup k then None else lookup m k')"
    by (simp add: alist_def)
qed

lemma present_in_chain:
  assumes "hashmap_inv m" "lookup m k = Some old" "i = unat (hash_function k) mod capacity m"
  shows "strdup k \<in> key ` set (data m ! i)"
proof -
  from assms(2) have "strdup k \<in> key ` set (entries m)"
    by (metis lookup_None_iff option.distinct(1))
  then obtain e where "e \<in> set (entries m)" "key e = strdup k" by auto
  with inv_bucket_mem [OF assms(1)] assms(3) show ?thesis by force
qed

lemma hashmap_put_custom_absent:
  assumes "hashmap_inv m" "lookup m k = None"
  shows "hashmap_put_custom m k v f =
     (let i = unat (hash_function k) mod capacity m;
          m1 = m\<lparr>data := (data m)[i := \<lparr>key = strdup k, val = v\<rparr> # data m ! i],
                  map_length := map_length m + 1\<rparr>
      in if load_factor_reached (map_length m + 1) (capacity m)
         then Inr ((), hashmap_grow m1, [Memory_destroy_data])
         else Inr ((), m1, []))"
proof -
  define i where "i = unat (hash_function k) mod capacity m"
  from insert_absent(1) [OF assms i_def refl, of v f]
  have "put_loop (data m ! i) k v f = None" .
  moreover from assms(1) have "capacity m \<noteq> 0" by (simp add: hashmap_inv_def)
  ultimately show ?thesis
    by (simp add: hashmap_put_custom_def Let_def i_def)
qed

lemma hashmap_put_custom_present:
  assumes "hashmap_inv m" "lookup m k = Some old"
  shows "\<exists>xs e ys. data m ! (unat (hash_function k) mod capacity m) = xs @ e # ys \<and>
           strcmp (key e) k = 0 \<and> (\<forall>x \<in> set xs. strcmp (key x) k \<noteq> 0) \<and> val e = old \<and>
           hashmap_put_custom m k v f =
             Inr ((), m\<lparr>data := (data m)[unat (hash_function k) mod capacity m := xs @ e\<lparr>val := v\<rparr> # ys]\<rparr>,
                  if f \<noteq> Null_fn then [Call f old] else [])"
proof -
  define i where "i = unat (hash_function k) mod capacity m"
  from assms(1) have i: "i < capacity m" and c: "capacity m \<noteq> 0"
    by (simp_all add: hashmap_inv_def i_def)
  from present_in_chain [OF assms i_def]
    put_loop_None [OF inv_chain_canonical [OF assms(1) i], of k v f]
  obtain chain' evs where pl: "put_loop (data m ! i) k v f = Some (chain', evs)"
    by fastforce
  from put_loop_Some [OF pl] obtain xs e ys where
    dec: "data m ! i = xs @ e # ys" "strcmp (key e) k = 0" "\<forall>x \<in> set xs. strcmp (key x) k \<noteq> 0"
      "chain' = xs @ e\<lparr>val := v\<rparr> # ys" "evs = (if f \<noteq> Null_fn then [Call f (val e)] else [])"
    by blast
  from overwrite_present(3) [OF assms(1) i_def dec(1,2) refl] assms(2)
  have old: "val e = old" by simp
  from pl c dec(4,5) old have "hashmap_put_custom m k v f =
             Inr ((), m\<lparr>data := (data m)[i := xs @ e\<lparr>val := v\<rparr> # ys]\<rparr>,
                  if f \<noteq> Null_fn then [Call f old] else [])"
    by (simp add: hashmap_put_custom_def Let_def i_def)
  with dec(1-3) old show ?thesis
    unfolding i_def by blast
qed

lemma hashmap_remove_absent:
  assumes "hashmap_inv m" "lookup m k = None"
  shows "hashmap_remove m k = Inr (NULL, m, [])"
proof -
  define i where "i = unat (hash_function k) mod capacity m"
  from assms(1) have i: "i < capacity m" and c: "capacity m \<noteq> 0"
    by (simp_all add: hashmap_inv_def i_def)
  from assms(2) have "strdup k \<notin> key ` set (entries m)"
    by (simp add: lookup_None_iff)
  with inv_chain_subset [OF assms(1) i] have "strdup k \<notin> key ` set (data m ! i)"
    by blast
  with remove_loop_None [OF inv_chain_canonical [OF assms(1) i], of k]
  have "remove_loop (data m ! i) k = None" by simp
  with c show ?thesis
    by (simp add: hashmap_remove_def Let_def i_def)
qed

lemma hashmap_remove_present:
  assumes "hashmap_inv m" "lookup m k = Some old"
  shows "\<exists>xs e ys. data m ! (unat (hash_function k) mod capacity m) = xs @ e # ys \<and>
           strcmp (key e) k = 0 \<and> (\<forall>x \<in> set xs. strcmp (key x) k \<noteq> 0) \<and> val e = old \<and>
           hashmap_remove m k =
             Inr (old,
                  m\<lparr>data := (data m)[unat (hash_function k) mod capacity m := xs @ ys],
                    map_length := map_length m - 1\<rparr>,
                  [Memory_destroy_key (key e), Memory_destroy_entry e]) \<and>
           0 < map_length m"
proof -
  define i where "i = unat (hash_function k) mod capacity m"
  from assms(1) have i: "i < capacity m" and c: "capacity m \<noteq> 0"
    by (simp_all add: hashmap_inv_def i_def)
  from present_in_chain [OF assms i_def]
    remove_loop_None [OF inv_chain_canonical [OF assms(1) i], of k]
  obtain chain' e where rl: "remove_loop (data m ! i) k = Some (chain', e)"
    by fastforce
  from remove_loop_Some [OF rl] obtain xs ys where
    dec: "data m ! i = xs @ e # ys" "strcmp (key e) k = 0" "\<forall>x \<in> set xs. strcmp (key x) k \<noteq> 0"
      "chain' = xs @ ys"
    by blast
  from remove_present(3) [OF assms(1) i_def dec(1,2) refl] assms(2)
  have old: "val e = old" by simp
  from remove_present(4) [OF assms(1) i_def dec(1,2) refl]
  have pos: "0 < map_length m" by (simp split: if_splits)
  from rl c dec(4) old pos have "hashmap_remove m k =
             Inr (old, m\<lparr>data := (data m)[i := xs @ ys], map_length := map_length m - 1\<rparr>,
                  [Memory_destroy_key (key e), Memory_destroy_entry e])"
    by (simp add: hashmap_remove_def Let_def i_def)
  with dec(1-3) old pos show ?thesis
    unfolding i_def by blast
qed

lemma hashmap_put_custom_inv:
  assumes "hashmap_inv m"
  shows "\<exists>m' evs. hashmap_put_custom m k v f = Inr ((), m', evs) \<and> hashmap_inv m' \<and>
           (\<forall>k'. lookup m' k' = (if strdup k' = strdup k then Some v else lookup m k'))"
proof (cases "lookup m k")
  case None
  define i where "i = unat (hash_function k) mod capacity m"
  define m1 where "m1 = m\<lparr>data := (data m)[i := \<lparr>key = strdup k, val = v\<rparr> # data m ! i],
                  map_length := map_length m + 1\<rparr>"
  note ins = insert_absent [OF assms None i_def m1_def]
  show ?thesis
  proof (cases "load_factor_reached (map_length m + 1) (capacity m)")
    case True
    with hashmap_put_custom_absent [OF assms None, of v f]
    have "hashmap_put_custom m k v f = Inr ((), hashmap_grow m1, [Memory_destroy_data])"
      by (simp add: Let_def i_def m1_def)
    moreover have "hashmap_inv (hashmap_grow m1)"
      using ins(2) by (rule hashmap_grow_inv)
    moreover have "lookup (hashmap_grow m1) k' = (if strdup k' = strdup k then Some v else lookup m k')" for k'
      using hashmap_grow_lookup [OF ins(2), of k'] ins(3) [of k'] by simp
    ultimately show ?thesis by blast
  next
    case False
    with hashmap_put_custom_absent [OF assms None, of v f]
    have "hashmap_put_custom m k v f = Inr ((), m1, [])"
      by (simp add: Let_def i_def m1_def)
    with ins(2,3) show ?thesis by blast
  qed
next
  case (Some old)
  from hashmap_put_custom_present [OF assms Some, of v f] obtain xs e ys where
    dec: "data m ! (unat (hash_function k) mod capacity m) = xs @ e # ys" "strcmp (key e) k = 0"
    and put: "hashmap_put_custom m k v f =
             Inr ((), m\<lparr>data := (data m)[unat (hash_function k) mod capacity m := xs @ e\<lparr>val := v\<rparr> # ys]\<rparr>,
                  if f \<noteq> Null_fn then [Call f old] else [])"
    by blast
  note ov = overwrite_present [OF assms refl dec refl]
  from put ov(1,2) show ?thesis by blast
qed

lemma hashmap_remove_inv:
  assumes "hashmap_inv m"
  shows "\<exists>m' evs. hashmap_remove m k = Inr (case lookup m k of None \<Rightarrow> NULL | Some v \<Rightarrow> v, m', evs) \<and>
           hashmap_inv m' \<and>
           (\<forall>k'. lookup m' k' = (if strdup k' = strdup k then None else lookup m k'))"
proof (cases "lookup m k")
  case None
  have "lookup m k' = (if strdup k' = strdup k then None else lookup m k')" for k'
    using None by (simp add: lookup_def)
  with hashmap_remove_absent [OF assms None] assms None show ?thesis
    by auto
next
  case (Some old)
  from hashmap_remove_present [OF assms Some] obtain xs e ys where
    dec: "data m ! (unat (hash_function k) mod capacity m) = xs @ e # ys" "strcmp (key e) k = 0"
    and rem: "hashmap_remove m k =
             Inr (old,
                  m\<lparr>data := (data m)[unat (hash_function k) mod capacity m := xs @ ys],
                    map_length := map_length m - 1\<rparr>,
                  [Memory_destroy_key (key e), Memory_destroy_entry e])"
    and pos: "0 < map_length m"
    by blast
  from pos have eq: "(if map_length m = 0 then 2 ^ 64 - 1 else map_length m - 1) = map_length m - 1"
    by simp
  note rp = remove_present [OF assms refl dec refl, unfolded eq]
  from rem rp(1,2) Some show ?thesis by auto
qed

lemma hashmap_put_custom_insert:
  assumes "hashmap_inv m" "lookup m k = None"
    and "i = unat (hash_function k) mod capacity m"
    and "m1 = m\<lparr>data := (data m)[i := \<lparr>key = strdup k, val = v\<rparr> # data m ! i],
                  map_length := map_length m + 1\<rparr>"
  shows "load_factor_reached (map_length m + 1) (capacity m) \<Longrightarrow>
           hashmap_put_custom m k v f = Inr ((), hashmap_grow m1, [Memory_destroy_data])"
    and "\<not> load_factor_reached (map_length m + 1) (capacity m) \<Longrightarrow>
           hashmap_put_custom m k v f = Inr ((), m1, [])"
  using hashmap_put_custom_absent [OF assms(1,2), of v f]
  by (simp_all add: Let_def assms(3,4))

lemma hashmap_remove_other_buckets:
  assumes "hashmap_inv m"
  shows "\<exists>r m' evs. hashmap_remove m k = Inr (r, m', evs) \<and> capacity m' = capacity m \<and>
           (\<forall>j. j \<noteq> unat (hash_function k) mod capacity m \<longrightarrow> data m' ! j = data m ! j)"
proof (cases "lookup m k")
  case None
  from hashmap_remove_absent [OF assms None] show ?thesis by simp
next
  case (Some old)
  from hashmap_remove_present [OF assms Some] obtain xs e ys where
    "hashmap_remove m k =
       Inr (old, m\<lparr>data := (data m)[unat (hash_function k) mod capacity m := xs @ ys],
                   map_length := map_length m - 1\<rparr>,
            [Memory_destroy_key (key e), Memory_destroy_entry e])"
    by blast
  then show ?thesis by simp
qed

lemma hashmap_put_custom_other_buckets:
  assumes "hashmap_inv m"
  shows "\<exists>m' evs. hashmap_put_custom m k v f = Inr ((), m', evs) \<and>
           (capacity m' = capacity m \<longrightarrow>
              (\<forall>j. j \<noteq> unat (hash_function k) mod capacity m \<longrightarrow> data m' ! j = data m ! j))"
proof (cases "lookup m k")
  case None
  define i where "i = unat (hash_function k) mod capacity m"
  define m1 where "m1 = m\<lparr>data := (data m)[i := \<lparr>key = strdup k, val = v\<rparr> # data m ! i],
                  map_length := map_length m + 1\<rparr>"
  note put = hashmap_put_custom_insert [OF assms None i_def m1_def, of f]
  from assms have pos: "0 < capacity m" by (simp add: hashmap_inv_def)
  show ?thesis
  proof (cases "load_factor_reached (map_length m + 1) (capacity m)")
    case True
    from pos have "capacity (hashmap_grow m1) \<noteq> capacity m"
      by (simp add: hashmap_grow_fields m1_def)
    with put(1) [OF True] show ?thesis by simp
  next
    case False
    have "\<forall>j. j \<noteq> i \<longrightarrow> data m1 ! j = data m ! j"
      by (simp add: m1_def)
    with put(2) [OF False] show ?thesis
      unfolding i_def by blast
  qed
next
  case (Some old)
  from hashmap_put_custom_present [OF assms Some, of v f] obtain xs e ys where
    "hashmap_put_custom m k v f =
       Inr ((), m\<lparr>data := (data m)[unat (hash_function k) mod capacity m := xs @ e\<lparr>val := v\<rparr> # ys]\<rparr>,
            if f \<noteq> Null_fn then [Call f old] else [])"
    by blast
  then show ?thesis by simp
qed

subsection \<open>Sequences of operations\<close>

lemma apply_operation_inv:
  assumes "hashmap_inv m"
  shows "\<exists>m'. apply_operation m x = Inr m' \<and> hashmap_inv m' \<and>
           (\<forall>k'. lookup m' k' = (if strdup k' = strdup (operation_key x) then operation_value x else lookup m k'))"
proof (cases x)
  case (Put k v)
  with hashmap_put_custom_inv [OF assms, of k v Free] show ?thesis
    by (auto simp: hashmap_put_def operation_key_def operation_value_def)
next
  case (Put_custom k v f)
  with hashmap_put_custom_inv [OF assms, of k v f] show ?thesis
    by (auto simp: operation_key_def operation_value_def)
next
  case (Remove k)
  with hashmap_remove_inv [OF assms, of k] show ?thesis
    by (auto simp: operation_key_def operation_value_def)
qed

lemma run_append:
  "run m (xs @ ys) = (case run m xs of Inl e \<Rightarrow> Inl e | Inr m' \<Rightarrow> run m' ys)"
  by (induction xs arbitrary: m) (auto split: sum.splits)

lemma run_inv:
  "hashmap_inv m \<Longrightarrow> \<exists>m'. run m xs = Inr m' \<and> hashmap_inv m'"
proof (induction xs arbitrary: m)
  case Nil
  then show ?case by simp
next
  case (Cons x xs)
  from apply_operation_inv [OF Cons.prems, of x] obtain m1 where
    "apply_operation m x = Inr m1" "hashmap_inv m1" by blast
  with Cons.IH [of m1] show ?case by simp
qed

lemma run_snoc:
  "run m (xs @ [x]) = (case run m xs of Inl e \<Rightarrow> Inl e | Inr m' \<Rightarrow> apply_operation m' x)"
  by (simp add: run_append split: sum.splits)

lemma run_create_lookup:
  assumes "1 \<le> c"
  shows "\<exists>m. run (hashmap_create c) ops = Inr m \<and> hashmap_inv m \<and>
           (\<forall>k. lookup m k = last_write (rev ops) k)"
proof (induction ops rule: rev_induct)
  case Nil
  from assms show ?case
    by (simp add: hashmap_create_inv hashmap_create_lookup)
next
  case (snoc x ops)
  then obtain m where m: "run (hashmap_create c) ops = Inr m" "hashmap_inv m"
    "\<And>k. lookup m k = last_write (rev ops) k" by blast
  from apply_operation_inv [OF m(2), of x] obtain m' where
    m': "apply_operation m x = Inr m'" "hashmap_inv m'"
    "\<And>k'. lookup m' k' = (if strdup k' = strdup (operation_key x) then operation_value x else lookup m k')"
    by blast
  have "lookup m' k = last_write (rev (ops @ [x])) k" for k
    using m'(3) [of k] m(3) [of k] by (auto simp: strcmp_eq_0_iff)
  with m(1) m'(1,2) show ?case
    by (simp add: run_snoc)
qed

lemma run_create_inv:
  assumes "1 \<le> c" "run (hashmap_create c) ops = Inr m"
  shows "hashmap_inv m"
  using run_create_lookup [OF assms(1), of ops] assms(2) by auto

lemma last_write_None:
  "\<forall>x \<in> set xs. strcmp (operation_key x) k \<noteq> 0 \<Longrightarrow> last_write xs k = None"
  by (induction xs) auto

subsection \<open>Destruction\<close>




subsection \<open>Single-precision arithmetic\<close>

lemma two_powi_diff: "(2 :: rat) powi (m - n) = 2 powi m / 2 powi n"
  by (simp add: power_int_diff)

lemma two_powi_add: "(2 :: rat) powi (m + n) = 2 powi m * 2 powi n"
  by (simp add: power_int_add)

lemma pow_nat_ratio: "(2 :: rat) ^ nat a / 2 ^ nat (- a) = 2 powi a"
proof (cases "0 \<le> a")
  case True
  then show ?thesis by (simp add: power_int_def)
next
  case False
  then show ?thesis by (simp add: power_int_def field_simps)
qed

lemma scaled_fraction:
  assumes "0 < d"
  shows "(of_nat (n * 2 ^ nat (- u)) :: rat) / of_nat (d * 2 ^ nat u) = of_nat n / of_nat d * 2 powi (- u)"
proof -
  have "(of_nat (n * 2 ^ nat (- u)) :: rat) / of_nat (d * 2 ^ nat u)
      = of_nat n / of_nat d * (2 ^ nat (- u) / 2 ^ nat (- (- u)))"
    by simp
  then show ?thesis by (simp only: pow_nat_ratio)
qed

lemma round_half_even_upper:
  assumes "0 < d"
  shows "2 * d * round_half_even n d \<le> 2 * n + d"
proof -
  define q where "q = n div d"
  define r where "r = n mod d"
  have n: "n = q * d + r" by (simp add: q_def r_def)
  have rhe: "round_half_even n d = (if 2 * r < d then q else if d < 2 * r then q + 1
      else if even q then q else q + 1)"
    by (simp add: round_half_even_def q_def r_def Let_def)
  have "round_half_even n d = q \<or> round_half_even n d = q + 1 \<and> d \<le> 2 * r"
    unfolding rhe by auto
  then show ?thesis
  proof
    assume "round_half_even n d = q"
    then show ?thesis by (simp add: n algebra_simps)
  next
    assume a: "round_half_even n d = q + 1 \<and> d \<le> 2 * r"
    then have "2 * d * round_half_even n d = 2 * (q * d) + 2 * d"
      by (simp add: algebra_simps)
    also from a have "\<dots> \<le> 2 * (q * d) + (2 * r + d)" by simp
    also have "\<dots> = 2 * n + d" by (simp add: n)
    finally show ?thesis .
  qed
qed

lemma round_half_even_upper_rat:
  assumes "0 < d"
  shows "(of_nat (round_half_even n d) :: rat) \<le> of_nat n / of_nat d + 1 / 2"
proof -
  from round_half_even_upper [OF assms, of n]
  have "(of_nat (2 * d * round_half_even n d) :: rat) \<le> of_nat (2 * n + d)"
    by (simp only: of_nat_le_iff)
  then have "2 * of_nat d * (of_nat (round_half_even n d) :: rat) \<le> 2 * of_nat n + of_nat d"
    by simp
  with assms show ?thesis
    by (simp add: field_simps)
qed

lemma round_half_even_lower:
  assumes "0 < d"
  shows "2 * n \<le> 2 * d * round_half_even n d + d"
proof -
  define q where "q = n div d"
  define r where "r = n mod d"
  have n: "n = q * d + r" by (simp add: q_def r_def)
  have rhe: "round_half_even n d = (if 2 * r < d then q else if d < 2 * r then q + 1
      else if even q then q else q + 1)"
    by (simp add: round_half_even_def q_def r_def Let_def)
  have r: "r < d" using assms by (simp add: r_def)
  have "round_half_even n d = q \<and> 2 * r \<le> d \<or> round_half_even n d = q + 1"
    unfolding rhe by auto
  then show ?thesis
  proof
    assume a: "round_half_even n d = q \<and> 2 * r \<le> d"
    have "2 * n = 2 * (q * d) + 2 * r" by (simp add: n)
    also from a have "\<dots> \<le> 2 * (q * d) + d" by simp
    also from a have "\<dots> = 2 * d * round_half_even n d + d" by (simp add: algebra_simps)
    finally show ?thesis .
  next
    assume a: "round_half_even n d = q + 1"
    have "2 * n = 2 * (q * d) + 2 * r" by (simp add: n)
    also from r have "\<dots> \<le> 2 * (q * d) + 2 * d + d" by simp
    also from a have "\<dots> = 2 * d * round_half_even n d + d" by (simp add: algebra_simps)
    finally show ?thesis .
  qed
qed

lemma round_half_even_lower_rat:
  assumes "0 < d"
  shows "of_nat n / of_nat d - 1 / 2 \<le> (of_nat (round_half_even n d) :: rat)"
proof -
  from round_half_even_lower [OF assms, of n]
  have "(of_nat (2 * n) :: rat) \<le> of_nat (2 * d * round_half_even n d + d)"
    by (simp only: of_nat_le_iff)
  then have "2 * (of_nat n :: rat) \<le> 2 * of_nat d * of_nat (round_half_even n d) + of_nat d"
    by simp
  with assms show ?thesis
    by (simp add: field_simps)
qed

lemma round_half_even_exact: "round_half_even n 1 = n"
  by (simp add: round_half_even_def)

lemma round_half_even_ge:
  assumes "0 < d" "t * d \<le> n"
  shows "t \<le> round_half_even n d"
proof -
  from round_half_even_lower [OF assms(1), of n] assms(2)
  have "2 * (t * d) \<le> 2 * d * round_half_even n d + d" by simp
  then have "d * (2 * t) < d * (2 * round_half_even n d + 1) + d"
    using assms(1) by (simp add: algebra_simps)
  then have "d * (2 * t) < d * (2 * round_half_even n d + 2)"
    by (simp add: algebra_simps)
  with assms(1) have "2 * t < 2 * round_half_even n d + 2"
    by (simp only: mult_less_cancel1)
  then show ?thesis by simp
qed

lemma floorlog_pos: "0 < n \<Longrightarrow> 0 < floorlog 2 n"
  by (metis floorlog_eq_zero_iff less_numeral_extra(4) not_gr_zero one_less_numeral_iff semiring_norm(76) leD le_refl)

lemma floorlog_nat_bounds:
  assumes "0 < n"
  shows "2 ^ (floorlog 2 n - 1) \<le> n" "n < 2 ^ floorlog 2 n"
  using floorlog_bounds [of n 2] assms by simp_all

lemma two_pow_le_of_nat:
  assumes "(2::nat) ^ k \<le> n"
  shows "(2 :: rat) ^ k \<le> of_nat n"
proof -
  from assms have "(of_nat (2 ^ k) :: rat) \<le> of_nat n"
    by (rule of_nat_mono)
  then show ?thesis by simp
qed

lemma of_nat_less_two_pow:
  assumes "n < (2::nat) ^ k"
  shows "(of_nat n :: rat) < 2 ^ k"
proof -
  from assms have "(of_nat n :: rat) < of_nat (2 ^ k)"
    by (simp only: of_nat_less_iff)
  then show ?thesis by simp
qed

lemma two_powi_pred: "0 < a \<Longrightarrow> (2 :: rat) powi (int a - 1) = 2 ^ (a - 1)"
proof -
  assume "0 < a"
  then have "int a - 1 = int (a - 1)" by simp
  then show ?thesis by (simp only: power_int_of_nat)
qed

lemma two_powi_int: "(2 :: rat) powi (int a) = 2 ^ a"
  by simp

lemma floorlog_rat_bounds:
  assumes "0 < n"
  shows "(2 :: rat) powi (int (floorlog 2 n) - 1) \<le> of_nat n" "(of_nat n :: rat) < 2 powi (int (floorlog 2 n))"
  using floorlog_nat_bounds [OF assms] floorlog_pos [OF assms]
  by (simp_all only: two_pow_le_of_nat of_nat_less_two_pow two_powi_pred two_powi_int)

lemma float_exponent_test:
  assumes "0 < d"
  shows "d * 2 ^ nat k \<le> n * 2 ^ nat (- k) \<longleftrightarrow> (2 :: rat) powi k \<le> of_nat n / of_nat d"
proof -
  have "d * 2 ^ nat k \<le> n * 2 ^ nat (- k) \<longleftrightarrow>
      (of_nat (d * 2 ^ nat k) :: rat) \<le> of_nat (n * 2 ^ nat (- k))"
    by (simp only: of_nat_le_iff)
  also have "\<dots> \<longleftrightarrow> (of_nat d :: rat) * 2 ^ nat k \<le> of_nat n * 2 ^ nat (- k)"
    by simp
  also have "\<dots> \<longleftrightarrow> (2 :: rat) ^ nat k / 2 ^ nat (- k) \<le> of_nat n / of_nat d"
    using assms by (simp add: field_simps)
  finally show ?thesis by (simp only: pow_nat_ratio)
qed

lemma ratio_upper:
  assumes "(x :: rat) < 2 powi a" "2 powi (b - 1) \<le> y" 
  shows "x / y < 2 powi (a - b + 1)"
proof -
  have pos: "(0 :: rat) < 2 powi (b - 1)" by simp
  with assms(2) have y: "0 < y" by linarith
  have "x / y < 2 powi a / y" using assms(1) y by (simp add: divide_strict_right_mono)
  also have "\<dots> \<le> 2 powi a / 2 powi (b - 1)"
    using assms(2) pos by (simp add: frac_le)
  also have "\<dots> = 2 powi (a - (b - 1))"
    by (simp only: two_powi_diff)
  finally show ?thesis by (simp add: algebra_simps)
qed

lemma ratio_lower:
  assumes "2 powi (a - 1) \<le> (x :: rat)" "0 < y" "y < 2 powi b"
  shows "2 powi (a - b - 1) \<le> x / y"
proof -
  have "a - b - 1 = (a - 1) - b" by simp
  then have "2 powi (a - b - 1) = (2 :: rat) powi (a - 1) / 2 powi b"
    by (simp only: two_powi_diff)
  also have "\<dots> \<le> x / 2 powi b"
    by (simp add: assms(1) divide_right_mono)
  also have "\<dots> \<le> x / y"
  proof -
    have "0 \<le> x" using assms(1) by (meson order_trans zero_le_power_int zero_le_numeral)
    then show ?thesis using assms(2,3) by (simp add: frac_le)
  qed
  finally show ?thesis .
qed

lemma float_exponent_bounds:
  assumes "0 < n" "0 < d"
  shows "(2 :: rat) powi (float_exponent n d) \<le> of_nat n / of_nat d"
    and "(of_nat n :: rat) / of_nat d < 2 powi (float_exponent n d + 1)"
proof -
  define a where "a = int (floorlog 2 n)"
  define b where "b = int (floorlog 2 d)"
  define k where "k = a - b"
  define x where "x = (of_nat n :: rat) / of_nat d"
  have e: "float_exponent n d = (if (2 :: rat) powi k \<le> x then k else k - 1)"
    by (simp add: float_exponent_def Let_def float_exponent_test [OF assms(2)] k_def a_def b_def x_def)
  from assms(2) have dpos: "(0 :: rat) < of_nat d" by simp
  have up: "x < 2 powi (k + 1)"
    using ratio_upper [OF floorlog_rat_bounds(2) [OF assms(1)] floorlog_rat_bounds(1) [OF assms(2)]]
    by (simp add: x_def k_def a_def b_def)
  have lo: "2 powi (k - 1) \<le> x"
    using ratio_lower [OF floorlog_rat_bounds(1) [OF assms(1)] dpos floorlog_rat_bounds(2) [OF assms(2)]]
    by (simp add: x_def k_def a_def b_def)
  show "(2 :: rat) powi (float_exponent n d) \<le> of_nat n / of_nat d"
    using lo by (simp add: e x_def [symmetric])
  show "(of_nat n :: rat) / of_nat d < 2 powi (float_exponent n d + 1)"
    using up by (auto simp: e x_def [symmetric])
qed

lemma float_le_value: "float_le x y \<longleftrightarrow> float_value x \<le> float_value y"
proof -
  define a where "a = snd x - snd y"
  have "float_le x y \<longleftrightarrow> (of_nat (fst x * 2 ^ nat a) :: rat) \<le> of_nat (fst y * 2 ^ nat (- a))"
    unfolding float_le_def a_def by (simp only: of_nat_le_iff minus_diff_eq)
  also have "\<dots> \<longleftrightarrow> (of_nat (fst x) :: rat) * (2 ^ nat a / 2 ^ nat (- a)) \<le> of_nat (fst y)"
    by (simp add: field_simps)
  also have "\<dots> \<longleftrightarrow> (of_nat (fst x) :: rat) * 2 powi (snd x - snd y) \<le> of_nat (fst y)"
    by (simp only: pow_nat_ratio a_def)
  also have "\<dots> \<longleftrightarrow> (of_nat (fst x) :: rat) * 2 powi (snd x) \<le> of_nat (fst y) * 2 powi (snd y)"
    by (simp add: two_powi_diff field_simps)
  finally show ?thesis by (simp add: float_value_def)
qed

lemma float_round_value_upper:
  assumes "0 < n" "0 < d"
  shows "float_value (float_round n d) \<le>
     (of_nat n / of_nat d * 2 powi (- (float_exponent n d - 23)) + 1 / 2) * 2 powi (float_exponent n d - 23)"
proof -
  define u where "u = float_exponent n d - 23"
  have fr: "float_round n d = (round_half_even (n * 2 ^ nat (- u)) (d * 2 ^ nat u), u)"
    using assms by (simp add: float_round_def Let_def u_def)
  from assms(2) have "0 < d * 2 ^ nat u" by simp
  from round_half_even_upper_rat [OF this, of "n * 2 ^ nat (- u)"]
  have "(of_nat (round_half_even (n * 2 ^ nat (- u)) (d * 2 ^ nat u)) :: rat)
      \<le> of_nat n / of_nat d * 2 powi (- u) + 1 / 2"
    by (simp only: scaled_fraction [OF assms(2)])
  moreover have "(0 :: rat) \<le> 2 powi u" by simp
  ultimately have "(of_nat (round_half_even (n * 2 ^ nat (- u)) (d * 2 ^ nat u)) :: rat) * 2 powi u
      \<le> (of_nat n / of_nat d * 2 powi (- u) + 1 / 2) * 2 powi u"
    by (rule mult_right_mono)
  then show ?thesis
    by (simp add: fr float_value_def u_def)
qed

lemma two_powi_less_imp: "(2 :: rat) powi a \<le> x \<Longrightarrow> x < 2 powi b \<Longrightarrow> a < b"
proof -
  assume "(2 :: rat) powi a \<le> x" "x < 2 powi b"
  then have lt: "(2 :: rat) powi a < 2 powi b" by simp
  show "a < b"
  proof (rule ccontr)
    assume "\<not> a < b"
    then have "b \<le> a" by simp
    then have "(2 :: rat) powi b \<le> 2 powi a"
      by (intro power_int_increasing) simp_all
    with lt show False by simp
  qed
qed

lemma float_round_value_le:
  assumes "0 < n" "0 < d"
  shows "float_value (float_round n d) \<le> of_nat n / of_nat d + 2 powi (float_exponent n d - 24)"
proof -
  define u where "u = float_exponent n d - 23"
  define x where "x = (of_nat n :: rat) / of_nat d"
  have "float_value (float_round n d) \<le> (x * 2 powi (- u) + 1 / 2) * 2 powi u"
    unfolding x_def u_def using assms by (rule float_round_value_upper)
  also have "\<dots> = x * (2 powi (- u) * 2 powi u) + 2 powi u / 2"
    by (simp add: algebra_simps)
  also have "2 powi (- u) * (2 :: rat) powi u = 1"
    by (simp add: power_int_minus)
  also have "(2 :: rat) powi u / 2 = 2 powi (u - 1)"
    using two_powi_diff [of u 1] by simp
  finally show ?thesis by (simp add: x_def u_def)
qed

lemma float_round_value_ge:
  assumes "0 < n" "0 < d"
  shows "of_nat n / of_nat d - 2 powi (float_exponent n d - 24) \<le> float_value (float_round n d)"
proof -
  define u where "u = float_exponent n d - 23"
  define x where "x = (of_nat n :: rat) / of_nat d"
  have fr: "float_round n d = (round_half_even (n * 2 ^ nat (- u)) (d * 2 ^ nat u), u)"
    using assms by (simp add: float_round_def Let_def u_def)
  from assms(2) have "0 < d * 2 ^ nat u" by simp
  from round_half_even_lower_rat [OF this, of "n * 2 ^ nat (- u)"]
  have "x * 2 powi (- u) - 1 / 2 \<le> (of_nat (round_half_even (n * 2 ^ nat (- u)) (d * 2 ^ nat u)) :: rat)"
    by (simp only: scaled_fraction [OF assms(2)] x_def)
  moreover have "(0 :: rat) \<le> 2 powi u" by simp
  ultimately have "(x * 2 powi (- u) - 1 / 2) * 2 powi u
      \<le> (of_nat (round_half_even (n * 2 ^ nat (- u)) (d * 2 ^ nat u)) :: rat) * 2 powi u"
    by (rule mult_right_mono)
  then have "(x * 2 powi (- u) - 1 / 2) * 2 powi u \<le> float_value (float_round n d)"
    by (simp add: fr float_value_def)
  moreover have "(x * 2 powi (- u) - 1 / 2) * 2 powi u = x * (2 powi (- u) * 2 powi u) - 2 powi u / 2"
    by (simp add: algebra_simps)
  moreover have "2 powi (- u) * (2 :: rat) powi u = 1"
    by (simp add: power_int_minus)
  moreover have "(2 :: rat) powi u / 2 = 2 powi (u - 1)"
    using two_powi_diff [of u 1] by simp
  ultimately show ?thesis by (simp add: x_def u_def)
qed

lemma float_round_below_three_quarters:
  assumes "0 < n" "0 < d" "(of_nat n :: rat) / of_nat d < 3 / 4 - 2 powi (- 25)"
  shows "float_value (float_round n d) < 3 / 4"
proof -
  define e where "e = float_exponent n d"
  define x where "x = (of_nat n :: rat) / of_nat d"
  have "(2 :: rat) powi e \<le> x" unfolding e_def x_def using assms(1,2) by (rule float_exponent_bounds)
  moreover have "x < 2 powi 0"
  proof -
    have "(0 :: rat) < 2 powi (- 25)" by simp
    with assms(3) have "x < 3 / 4" unfolding x_def by linarith
    then show ?thesis by simp
  qed
  ultimately have "e < 0" by (rule two_powi_less_imp)
  then have "e - 24 \<le> - 25" by simp
  then have "(2 :: rat) powi (e - 24) \<le> 2 powi (- 25)"
    by (intro power_int_increasing) simp_all
  with float_round_value_le [OF assms(1,2)] have "float_value (float_round n d) \<le> x + 2 powi (- 25)"
    by (simp add: e_def x_def)
  with assms(3) show ?thesis unfolding x_def by linarith
qed

lemma float_round_at_least_three_quarters:
  assumes "0 < n" "0 < d" "3 * d \<le> 4 * n"
  shows "3 / 4 \<le> float_value (float_round n d)"
proof -
  define e where "e = float_exponent n d"
  define x where "x = (of_nat n :: rat) / of_nat d"
  have x34: "3 / 4 \<le> x"
  proof -
    from assms(3) have "(of_nat (3 * d) :: rat) \<le> of_nat (4 * n)" by (simp only: of_nat_le_iff)
    with assms(2) show ?thesis by (simp add: x_def field_simps)
  qed
  have lo: "(2 :: rat) powi e \<le> x" and up: "x < 2 powi (e + 1)"
    unfolding e_def x_def using assms(1,2) by (rule float_exponent_bounds)+
  have "(2 :: rat) powi (- 1) \<le> x" using x34 by (simp add: power_int_minus)
  from this up have "- 1 < e + 1" by (rule two_powi_less_imp)
  then have "e = - 1 \<or> 0 \<le> e" by auto
  then show ?thesis
  proof
    assume e: "e = - 1"
    then have fr: "float_round n d = (round_half_even (n * 2 ^ 24) d, - 24)"
      using assms(1,2) by (simp add: float_round_def Let_def e_def)
    from assms(3) have "12582912 * d \<le> n * 2 ^ 24" by simp
    with assms(2) have "12582912 \<le> round_half_even (n * 2 ^ 24) d"
      by (rule round_half_even_ge)
    then have "(of_nat 12582912 :: rat) \<le> of_nat (round_half_even (n * 2 ^ 24) d)"
      by (simp only: of_nat_le_iff)
    then show ?thesis
      by (simp add: fr float_value_def power_int_minus field_simps)
  next
    assume e: "0 \<le> e"
    have "(2 :: rat) powi (e - 24) = 2 powi e * 2 powi (- 24)"
      using two_powi_add [of e "- 24"] by simp
    also have "\<dots> \<le> x * 2 powi (- 24)"
      using lo by (intro mult_right_mono) simp_all
    finally have "x - x * 2 powi (- 24) \<le> x - 2 powi (e - 24)" by simp
    also have "\<dots> \<le> float_value (float_round n d)"
      unfolding x_def e_def using assms(1,2) by (rule float_round_value_ge)
    finally have "x * (1 - 2 powi (- 24)) \<le> float_value (float_round n d)"
      by (simp add: algebra_simps)
    moreover have "(1 :: rat) \<le> x"
    proof -
      from e have "(2 :: rat) powi 0 \<le> 2 powi e" by (intro power_int_increasing) simp_all
      with lo show ?thesis by simp
    qed
    then have "1 * (1 - 2 powi (- 24)) \<le> x * (1 - (2 :: rat) powi (- 24))"
      by (intro mult_right_mono) (simp_all add: power_int_minus)
    moreover have "3 / 4 \<le> 1 * (1 - (2 :: rat) powi (- 24))"
      by (simp add: power_int_minus)
    ultimately show ?thesis by linarith
  qed
qed

lemma float_of_size_small:
  assumes "l < 2 ^ 24"
  shows "float_value (float_of_size l) \<le> of_nat l + 1 / 2"
proof (cases "l = 0")
  case True
  then show ?thesis by (simp add: float_of_size_def float_round_def float_value_def)
next
  case False
  then have l: "0 < l" by simp
  define e where "e = float_exponent l 1"
  have "(2 :: rat) powi e \<le> of_nat l"
    using float_exponent_bounds(1) [OF l, of 1] by (simp add: e_def)
  moreover have "(of_nat l :: rat) < 2 powi 24"
  proof -
    from assms have "(of_nat l :: rat) < of_nat (2 ^ 24)" by (simp only: of_nat_less_iff)
    then show ?thesis by simp
  qed
  ultimately have "e < 24" by (rule two_powi_less_imp)
  then have "e - 24 \<le> - 1" by simp
  then have "(2 :: rat) powi (e - 24) \<le> 2 powi (- 1)"
    by (intro power_int_increasing) simp_all
  with float_round_value_le [OF l, of 1] show ?thesis
    by (simp add: e_def float_of_size_def power_int_minus)
qed

lemma float_of_size_at_2_24:
  "float_of_size 16777216 = (8388608, 1)"
  "float_of_size 16777217 = (8388608, 1)"
  "float_of_size 16777218 = (8388609, 1)"
  "float_of_size 16777219 = (8388610, 1)"
  "float_of_size 16777220 = (8388610, 1)"
  "float_of_size 16777221 = (8388610, 1)"
  "float_of_size 22369628 = (11184814, 1)"
  by (simp_all add: float_of_size_def float_round_def float_exponent_def round_half_even_def
      compute_floorlog Let_def)

lemma float_of_size_bound:
  assumes "l \<le> 16777221"
  shows "float_value (float_of_size l) \<le> 16777220"
proof (cases "l < 2 ^ 24")
  case True
  then have "(of_nat l :: rat) \<le> of_nat 16777215"
    by (simp only: of_nat_le_iff) simp
  with float_of_size_small [OF True] show ?thesis by simp
next
  case False
  then have "\<not> l < 16777216" by simp
  with assms have "l = 16777216 \<or> l = 16777217 \<or> l = 16777218 \<or> l = 16777219 \<or>
      l = 16777220 \<or> l = 16777221"
    by arith
  then show ?thesis
    by (auto simp: float_of_size_at_2_24 float_value_def)
qed

lemma float_of_size_exact:
  assumes "0 < l" "l < 2 ^ 24"
  shows "float_value (float_of_size l) = of_nat l" "0 < fst (float_of_size l)"
proof -
  define e where "e = float_exponent l 1"
  define u where "u = e - 23"
  have "(2 :: rat) powi e \<le> of_nat l"
    using float_exponent_bounds(1) [OF assms(1), of 1] by (simp add: e_def)
  moreover have "(of_nat l :: rat) < 2 powi 24"
  proof -
    from assms(2) have "(of_nat l :: rat) < of_nat (2 ^ 24)" by (simp only: of_nat_less_iff)
    then show ?thesis by simp
  qed
  ultimately have "e < 24" by (rule two_powi_less_imp)
  then have u: "u \<le> 0" by (simp add: u_def)
  then have "nat u = 0" by simp
  then have fr: "float_of_size l = (l * 2 ^ nat (- u), u)"
    using assms(1) round_half_even_exact [of "l * 2 ^ nat (- u)"]
    by (simp add: float_of_size_def float_round_def Let_def e_def u_def)
  from u have "(2 :: rat) ^ nat (- u) = 2 powi (- u)"
    by (simp add: power_int_def)
  then have "float_value (float_of_size l) = of_nat l * (2 powi (- u) * 2 powi u)"
    by (simp add: fr float_value_def)
  also have "2 powi (- u) * (2 :: rat) powi u = 1"
    by (simp add: power_int_minus)
  finally show "float_value (float_of_size l) = of_nat l" by simp
  from assms(1) show "0 < fst (float_of_size l)" by (simp add: fr)
qed

lemma float_div_fraction:
  assumes "0 < fst y"
  shows "(of_nat (fst x * 2 ^ nat (snd x - snd y)) :: rat) / of_nat (fst y * 2 ^ nat (snd y - snd x))
     = float_value x / float_value y"
proof -
  define a where "a = snd x - snd y"
  have "(of_nat (fst x * 2 ^ nat a) :: rat) / of_nat (fst y * 2 ^ nat (- a))
      = of_nat (fst x) / of_nat (fst y) * (2 ^ nat a / 2 ^ nat (- a))"
    by simp
  also have "\<dots> = of_nat (fst x) / of_nat (fst y) * 2 powi (snd x - snd y)"
    by (simp only: pow_nat_ratio a_def)
  also have "\<dots> = float_value x / float_value y"
    by (simp add: float_value_def two_powi_diff)
  finally show ?thesis by (simp add: a_def)
qed

lemmas float_eval = load_factor_reached_def float_le_def float_div_def float_of_size_def
  float_round_def float_exponent_def round_half_even_def compute_floorlog Let_def

subsection \<open>The load factor after an insertion\<close>

lemma load_factor_reached_small:
  assumes "0 < l" "l < 2 ^ 24" "0 < c" "c < 2 ^ 24" "3 * c \<le> 4 * l"
  shows "load_factor_reached l c"
proof -
  define x where "x = float_of_size l"
  define y where "y = float_of_size c"
  note xs = float_of_size_exact [OF assms(1,2), folded x_def]
  note ys = float_of_size_exact [OF assms(3,4), folded y_def]
  define n where "n = fst x * 2 ^ nat (snd x - snd y)"
  define d where "d = fst y * 2 ^ nat (snd y - snd x)"
  have n: "0 < n" using xs(2) by (simp add: n_def)
  have d: "0 < d" using ys(2) by (simp add: d_def)
  have frac: "(of_nat n :: rat) / of_nat d = of_nat l / of_nat c"
    unfolding n_def d_def using ys(2) by (simp only: float_div_fraction xs(1) ys(1))
  from assms(5) have "(of_nat (3 * c) :: rat) \<le> of_nat (4 * l)" by (simp only: of_nat_le_iff)
  with assms(3) have "3 / 4 \<le> (of_nat l :: rat) / of_nat c" by (simp add: field_simps)
  with frac have "3 / 4 \<le> (of_nat n :: rat) / of_nat d" by simp
  with d have "(of_nat (3 * d) :: rat) \<le> of_nat (4 * n)" by (simp add: field_simps)
  then have "3 * d \<le> 4 * n" by (simp only: of_nat_le_iff)
  with n d have "3 / 4 \<le> float_value (float_round n d)"
    by (rule float_round_at_least_three_quarters)
  moreover have "float_value (3, - 2) = 3 / 4"
    by (simp add: float_value_def power_int_minus)
  ultimately have "float_le (3, - 2) (float_round n d)"
    by (simp add: float_le_value)
  then show ?thesis
    by (simp add: load_factor_reached_def float_div_def x_def [symmetric] y_def [symmetric] n_def d_def)
qed

lemma hashmap_put_custom_sizes:
  assumes "hashmap_inv m" "hashmap_put_custom m k v f = Inr ((), m', evs)"
  shows "capacity m' = capacity m \<and> map_length m' = map_length m \<or>
         capacity m' = capacity m \<and> map_length m' = map_length m + 1 \<and>
           \<not> load_factor_reached (map_length m + 1) (capacity m) \<or>
         capacity m' = 2 * capacity m \<and> map_length m' = map_length m + 1"
proof (cases "lookup m k")
  case None
  define i where "i = unat (hash_function k) mod capacity m"
  define m1 where "m1 = m\<lparr>data := (data m)[i := \<lparr>key = strdup k, val = v\<rparr> # data m ! i],
                  map_length := map_length m + 1\<rparr>"
  note put = hashmap_put_custom_insert [OF assms(1) None i_def m1_def, of f]
  show ?thesis
  proof (cases "load_factor_reached (map_length m + 1) (capacity m)")
    case True
    from put(1) [OF True] assms(2) have "m' = hashmap_grow m1" by simp
    then show ?thesis by (simp add: hashmap_grow_fields m1_def)
  next
    case False
    from put(2) [OF False] assms(2) have "m' = m1" by simp
    with False show ?thesis by (simp add: m1_def)
  qed
next
  case (Some old)
  from hashmap_put_custom_present [OF assms(1) Some, of v f] assms(2) obtain d where
    "m' = m\<lparr>data := d\<rparr>"
    by auto
  then show ?thesis by simp
qed

lemma hashmap_remove_sizes:
  assumes "hashmap_inv m" "hashmap_remove m k = Inr (r, m', evs)"
  shows "capacity m' = capacity m \<and> map_length m' \<le> map_length m"
proof (cases "lookup m k")
  case None
  from hashmap_remove_absent [OF assms(1) None] assms(2) show ?thesis by simp
next
  case (Some old)
  from hashmap_remove_present [OF assms(1) Some] assms(2) obtain d where
    "m' = m\<lparr>data := d, map_length := map_length m - 1\<rparr>"
    by auto
  then show ?thesis by simp
qed

lemma apply_operation_sizes:
  assumes "hashmap_inv m" "apply_operation m x = Inr m'"
  shows "capacity m' = capacity m \<and> map_length m' \<le> map_length m \<or>
         capacity m' = capacity m \<and> map_length m' = map_length m + 1 \<and>
           \<not> load_factor_reached (map_length m + 1) (capacity m) \<or>
         capacity m' = 2 * capacity m \<and> map_length m' = map_length m + 1"
proof (cases x)
  case (Put k v)
  with assms(2) obtain evs where "hashmap_put_custom m k v Free = Inr ((), m', evs)"
    by (cases "hashmap_put_custom m k v Free") (auto simp: hashmap_put_def)
  from hashmap_put_custom_sizes [OF assms(1) this] show ?thesis by auto
next
  case (Put_custom k v f)
  with assms(2) obtain evs where "hashmap_put_custom m k v f = Inr ((), m', evs)"
    by (cases "hashmap_put_custom m k v f") auto
  from hashmap_put_custom_sizes [OF assms(1) this] show ?thesis by auto
next
  case (Remove k)
  with assms(2) obtain r evs where "hashmap_remove m k = Inr (r, m', evs)"
    by (cases "hashmap_remove m k") auto
  from hashmap_remove_sizes [OF assms(1) this] show ?thesis by auto
qed

lemma load_factor_step:
  assumes "hashmap_inv m" "apply_operation m x = Inr m'"
    and "capacity m' < 2 ^ 24" "4 * map_length m < 3 * capacity m"
  shows "4 * map_length m' < 3 * capacity m'"
proof -
  from assms(1) have c: "0 < capacity m" by (simp add: hashmap_inv_def)
  from apply_operation_sizes [OF assms(1,2)]
  consider "capacity m' = capacity m" "map_length m' \<le> map_length m"
    | "capacity m' = capacity m" "map_length m' = map_length m + 1"
        "\<not> load_factor_reached (map_length m + 1) (capacity m)"
    | "capacity m' = 2 * capacity m" "map_length m' = map_length m + 1"
    by blast
  then show ?thesis
  proof cases
    case 1
    with assms(4) show ?thesis by simp
  next
    case 2
    from assms(3) 2(1) have cap: "capacity m < 2 ^ 24" by simp
    with assms(4) have "map_length m + 1 < 2 ^ 24" by simp
    with load_factor_reached_small [of "map_length m + 1" "capacity m"] c cap 2(3)
    have "\<not> 3 * capacity m \<le> 4 * (map_length m + 1)" by auto
    with 2(1,2) show ?thesis by simp
  next
    case 3
    from assms(4) c have "4 * (map_length m + 1) < 3 * (2 * capacity m)" by arith
    with 3 show ?thesis by simp
  qed
qed

lemma load_factor_bound_small:
  assumes "1 \<le> c"
  shows "run (hashmap_create c) ops = Inr m \<Longrightarrow> capacity m < 2 ^ 24 \<Longrightarrow>
         4 * map_length m < 3 * capacity m"
proof (induction ops arbitrary: m rule: rev_induct)
  case Nil
  then have "m = hashmap_create c" by simp
  with assms show ?case by (simp add: hashmap_create_def)
next
  case (snoc x ops)
  from run_create_lookup [OF assms, of ops] obtain m0 where
    m0: "run (hashmap_create c) ops = Inr m0" "hashmap_inv m0" by blast
  with snoc.prems(1) have ap: "apply_operation m0 x = Inr m" by (simp add: run_snoc)
  from apply_operation_sizes [OF m0(2) ap] have "capacity m0 \<le> capacity m" by auto
  with snoc.prems(2) have "capacity m0 < 2 ^ 24" by simp
  with snoc.IH [OF m0(1)] have "4 * map_length m0 < 3 * capacity m0" .
  with m0(2) ap snoc.prems(2) show ?case by (rule load_factor_step)
qed

lemma no_growth_below:
  assumes "l \<le> 16777221"
  shows "\<not> load_factor_reached l 22369628"
proof -
  define x where "x = float_of_size l"
  define y :: float where "y = (11184814, 1)"
  have y: "float_of_size 22369628 = y" by (simp add: float_of_size_at_2_24 y_def)
  have yv: "float_value y = 22369628" by (simp add: y_def float_value_def)
  have xv: "float_value x \<le> 16777220" unfolding x_def using assms by (rule float_of_size_bound)
  define n where "n = fst x * 2 ^ nat (snd x - snd y)"
  define d where "d = fst y * 2 ^ nat (snd y - snd x)"
  have d: "0 < d" by (simp add: d_def y_def)
  have div: "float_div x y = float_round n d"
    by (simp add: float_div_def n_def d_def)
  have "float_value (float_round n d) < 3 / 4"
  proof (cases "n = 0")
    case True
    then show ?thesis by (simp add: float_round_def float_value_def)
  next
    case False
    then have n: "0 < n" by simp
    have "(of_nat n :: rat) / of_nat d = float_value x / float_value y"
      unfolding n_def d_def by (rule float_div_fraction) (simp add: y_def)
    also have "\<dots> \<le> 16777220 / 22369628"
      using xv by (simp add: yv divide_right_mono)
    also have "\<dots> < 3 / 4 - 2 powi (- 25)"
      by (simp add: power_int_minus)
    finally show ?thesis by (rule float_round_below_three_quarters [OF n d])
  qed
  moreover have "float_value (3, - 2) = 3 / 4"
    by (simp add: float_value_def power_int_minus)
  ultimately have "\<not> float_le (3, - 2) (float_round n d)"
    by (simp add: float_le_value)
  then show ?thesis
    by (simp add: load_factor_reached_def x_def [symmetric] y div)
qed

lemma many_puts_no_growth:
  assumes "n \<le> 16777221"
  shows "\<exists>m. run (hashmap_create 22369628) (map (\<lambda>i. Put (replicate (Suc i) CHR ''a'') 1) [0..<n]) = Inr m \<and>
           hashmap_inv m \<and> capacity m = 22369628 \<and> map_length m = n \<and>
           (\<forall>k. lookup m k = last_write (rev (map (\<lambda>i. Put (replicate (Suc i) CHR ''a'') 1) [0..<n])) k)"
  using assms
proof (induction n)
  case 0
  show ?case
    by (simp add: hashmap_create_inv hashmap_create_lookup) (simp add: hashmap_create_def)
next
  case (Suc n)
  define ops where "ops = map (\<lambda>i. Put (replicate (Suc i) CHR ''a'') 1) [0..<n]"
  define k where "k = replicate (Suc n) CHR ''a''"
  from Suc obtain m where m: "run (hashmap_create 22369628) ops = Inr m" "hashmap_inv m"
    "capacity m = 22369628" "map_length m = n" "\<And>k. lookup m k = last_write (rev ops) k"
    unfolding ops_def by auto
  have a: "CHR ''a'' \<noteq> NUL" by (simp add: NUL_def)
  have "strcmp (operation_key y) k \<noteq> 0" if "y \<in> set (rev ops)" for y
  proof -
    from that obtain x where x: "x < n" "y = Put (replicate (Suc x) CHR ''a'') 1"
      by (auto simp: ops_def)
    from x(2) have "operation_key y = replicate (Suc x) CHR ''a''"
      by (simp add: operation_key_def del: replicate_Suc)
    moreover from x(1) have "Suc x \<noteq> Suc n" by simp
    ultimately show ?thesis
      unfolding k_def using strcmp_replicate [OF a, of "Suc x" "Suc n"] by simp
  qed
  then have "\<forall>x \<in> set (rev ops). strcmp (operation_key x) k \<noteq> 0" by blast
  then have "last_write (rev ops) k = None" by (rule last_write_None)
  with m(5) have absent: "lookup m k = None" by simp
  define i where "i = unat (hash_function k) mod capacity m"
  define m1 where "m1 = m\<lparr>data := (data m)[i := \<lparr>key = strdup k, val = 1\<rparr> # data m ! i],
                  map_length := map_length m + 1\<rparr>"
  from Suc.prems have "\<not> load_factor_reached (map_length m + 1) (capacity m)"
    by (simp add: m(3,4) no_growth_below)
  from hashmap_put_custom_insert(2) [OF m(2) absent i_def m1_def this, of Free]
  have put: "hashmap_put m k 1 = Inr ((), m1, [])" by (simp add: hashmap_put_def)
  have ops': "map (\<lambda>i. Put (replicate (Suc i) CHR ''a'') 1) [0..<Suc n] = ops @ [Put k 1]"
    by (simp add: ops_def k_def)
  have run: "run (hashmap_create 22369628) (ops @ [Put k 1]) = Inr m1"
    by (simp add: run_snoc m(1) put)
  from run_create_lookup [of 22369628 "ops @ [Put k 1]"] run
  have lk: "\<forall>k'. lookup m1 k' = last_write (rev (ops @ [Put k 1])) k'"
    by auto
  have "hashmap_inv m1" by (rule insert_absent(2) [OF m(2) absent i_def m1_def])
  moreover have "capacity m1 = 22369628" "map_length m1 = Suc n"
    by (simp_all add: m1_def m(3,4))
  ultimately show ?case
    unfolding ops' using run lk by blast
qed

subsection \<open>A table of two buckets\<close>

lemma hashmap_create_2: "hashmap_create 2 = \<lparr>capacity = 2, map_length = 0, data = [[], []]\<rparr>"
  by (simp add: hashmap_create_def numeral_2_eq_2)

lemma upt_0_2: "[0..<2] = [0, 1]"
  by (simp add: numeral_2_eq_2)

lemma replicate_4: "replicate 4 x = [x, x, x, x]"
  by (simp add: numeral_eq_Suc)

lemma hashmap_grow_2:
  "hashmap_grow \<lparr>capacity = 2, map_length = n, data = [c0, c1]\<rparr> =
     \<lparr>capacity = 4, map_length = n, data = rehash_chain 4 c1 (rehash_chain 4 c0 [[], [], [], []])\<rparr>"
  by (simp add: hashmap_grow_def upt_0_2 replicate_4)

lemma load_factor_1_2: "\<not> load_factor_reached (Suc 0) 2"
proof -
  have "\<not> load_factor_reached 1 2" by (simp add: float_eval)
  then show ?thesis by simp
qed

lemma load_factor_2_2: "load_factor_reached (Suc (Suc 0)) 2"
proof -
  have "load_factor_reached 2 2" by (simp add: float_eval)
  then show ?thesis by (simp add: numeral_2_eq_2)
qed

lemma put_a:
  "hashmap_put (hashmap_create 2) ''a'' 1 =
     Inr ((), \<lparr>capacity = 2, map_length = 1, data = [[\<lparr>key = ''a'', val = 1\<rparr>], []]\<rparr>, [])"
  by (simp add: hashmap_create_2 hashmap_put_def hashmap_put_custom_def hash_a NUL_def load_factor_1_2 Let_def)

lemma put_e:
  "hashmap_put \<lparr>capacity = 2, map_length = 1, data = [[\<lparr>key = ''a'', val = 1\<rparr>], []]\<rparr> ''e'' 2 =
     Inr ((), \<lparr>capacity = 4, map_length = 2,
               data = [[], [], [\<lparr>key = ''a'', val = 1\<rparr>, \<lparr>key = ''e'', val = 2\<rparr>], []]\<rparr>,
          [Memory_destroy_data])"
  by (simp add: hashmap_put_def hashmap_put_custom_def hash_a hash_e NUL_def load_factor_2_2 hashmap_grow_2 Let_def)

lemma run_example:
  "run (hashmap_create 2) [Put ''a'' 1, Put ''e'' 2] =
     Inr \<lparr>capacity = 4, map_length = 2, data = [[], [], [\<lparr>key = ''a'', val = 1\<rparr>, \<lparr>key = ''e'', val = 2\<rparr>], []]\<rparr>"
  by (simp add: put_a put_e [simplified])

subsection \<open>A table of four buckets\<close>

lemma hashmap_create_4: "hashmap_create 4 = \<lparr>capacity = 4, map_length = 0, data = [[], [], [], []]\<rparr>"
  by (simp add: hashmap_create_def replicate_4)


lemma load_factor_1_4: "\<not> load_factor_reached (Suc 0) 4"
proof -
  have "\<not> load_factor_reached 1 4" by (simp add: float_eval)
  then show ?thesis by simp
qed

lemma load_factor_2_4: "\<not> load_factor_reached (Suc (Suc 0)) 4"
proof -
  have "\<not> load_factor_reached 2 4" by (simp add: float_eval)
  then show ?thesis by (simp add: numeral_2_eq_2)
qed

lemma put_a_4:
  "hashmap_put (hashmap_create 4) ''a'' 1 =
     Inr ((), \<lparr>capacity = 4, map_length = 1, data = [[], [], [\<lparr>key = ''a'', val = 1\<rparr>], []]\<rparr>, [])"
  by (simp add: hashmap_create_4 hashmap_put_def hashmap_put_custom_def hash_a NUL_def load_factor_1_4 Let_def)

section \<open>The claims\<close>

text \<open>
  C1. On a table created with at least one bucket, after any finite sequence of
  \<^verbatim>\<open>hashmap_put\<close>, \<^verbatim>\<open>hashmap_put_custom\<close> and \<^verbatim>\<open>hashmap_remove\<close> calls, no call
  faults, and \<^verbatim>\<open>hashmap_get\<close> returns the value of the most recent put on a key equal to
  \<open>k\<close> byte for byte, or \<^verbatim>\<open>NULL\<close> when there was none or a remove came last. One more
  operation on a key different from \<open>k2\<close>, in the same bucket or not, leaves what
  \<^verbatim>\<open>hashmap_get\<close> returns for \<open>k2\<close> as it was.
\<close>

theorem hashmap_get_last_writer_wins:
  assumes "1 \<le> c"
  shows "\<exists>m. run (hashmap_create c) ops = Inr m \<and>
           hashmap_get m k = Inr (case last_write (rev ops) k of None \<Rightarrow> NULL | Some v \<Rightarrow> v, m, []) \<and>
           (\<forall>x k2. strcmp (operation_key x) k2 \<noteq> 0 \<longrightarrow>
              (\<exists>m' v. apply_operation m x = Inr m' \<and>
                 hashmap_get m k2 = Inr (v, m, []) \<and> hashmap_get m' k2 = Inr (v, m', [])))"
proof -
  from run_create_lookup [OF assms, of ops] obtain m where
    m: "run (hashmap_create c) ops = Inr m" "hashmap_inv m" "\<And>k. lookup m k = last_write (rev ops) k"
    by blast
  have "\<exists>m' v. apply_operation m x = Inr m' \<and>
          hashmap_get m k2 = Inr (v, m, []) \<and> hashmap_get m' k2 = Inr (v, m', [])"
    if "strcmp (operation_key x) k2 \<noteq> 0" for x k2
  proof -
    from apply_operation_inv [OF m(2), of x] obtain m' where
      m': "apply_operation m x = Inr m'" "hashmap_inv m'"
      "\<And>k'. lookup m' k' = (if strdup k' = strdup (operation_key x) then operation_value x else lookup m k')"
      by blast
    from that m'(3) [of k2] have "lookup m' k2 = lookup m k2"
      by (auto simp: strcmp_eq_0_iff)
    with m'(1) hashmap_get_lookup [OF m(2), of k2] hashmap_get_lookup [OF m'(2), of k2]
    show ?thesis by simp
  qed
  with m(1) hashmap_get_lookup [OF m(2), of k] m(3) [of k] show ?thesis
    by auto
qed

text \<open>
  Two keys of one bucket (\<open>''a''\<close> and \<open>''e''\<close> hash to the same bucket of 2 and of 4):
  after both are put and \<open>''a''\<close> is removed, \<open>''e''\<close> still has its value, and removing
  \<open>''a''\<close> again changes nothing for \<open>''e''\<close>.
\<close>

theorem hashmap_get_last_writer_wins_witness:
  "\<exists>m. run (hashmap_create 2) [Put ''a'' 1, Put ''e'' 2, Remove ''a''] = Inr m \<and>
       hashmap_get m ''e'' = Inr (2, m, []) \<and>
       (\<exists>m' v. apply_operation m (Remove ''a'') = Inr m' \<and>
          hashmap_get m ''e'' = Inr (v, m, []) \<and> hashmap_get m' ''e'' = Inr (v, m', []))"
proof -
  have ne: "strcmp (operation_key (Remove ''a'')) ''e'' \<noteq> 0"
    by (simp add: operation_key_def)
  from hashmap_get_last_writer_wins [of 2 "[Put ''a'' 1, Put ''e'' 2, Remove ''a'']" "''e''"]
  obtain m where m: "run (hashmap_create 2) [Put ''a'' 1, Put ''e'' 2, Remove ''a''] = Inr m"
    "hashmap_get m ''e'' = Inr (2, m, [])"
    "\<forall>x k2. strcmp (operation_key x) k2 \<noteq> 0 \<longrightarrow>
       (\<exists>m' v. apply_operation m x = Inr m' \<and>
          hashmap_get m k2 = Inr (v, m, []) \<and> hashmap_get m' k2 = Inr (v, m', []))"
    by (auto simp: operation_key_def operation_value_def NUL_def)
  from m(3) ne have "\<exists>m' v. apply_operation m (Remove ''a'') = Inr m' \<and>
          hashmap_get m ''e'' = Inr (v, m, []) \<and> hashmap_get m' ''e'' = Inr (v, m', [])"
    by blast
  with m(1,2) show ?thesis by blast
qed

text \<open>
  C2 fails on the code for large tables, by the rounding of the single-precision test.
  Create a table of capacity 22369628 and put 16777221 different keys. At every put
  \<^verbatim>\<open>(float)map->length\<close> is at most 16777220 (the last count, 16777221, is a tie
  between 16777220 and 16777222 and rounds to the even significand), the quotient by
  22369628 rounds to \<open>0.75 - 2 ^ -24\<close> or less, the test \<open>>= 0.75\<close> fails and the
  table never grows. After the last put the table holds 16777221 entries in 22369628
  buckets: the load factor is exactly 0.75, not below it. (While the capacity is below
  \<open>2 ^ 24\<close> every size is converted exactly and the bound holds: lemma
  \<open>load_factor_bound_small\<close>.)
\<close>

theorem load_factor_reaches_three_quarters:
  "\<exists>m. run (hashmap_create 22369628) (map (\<lambda>i. Put (replicate (Suc i) CHR ''a'') 1) [0..<16777221]) = Inr m \<and>
       capacity m = 22369628 \<and> map_length m = 16777221 \<and>
       4 * map_length m = 3 * capacity m \<and>
       float_of_size 16777221 = (8388610, 1) \<and> float_of_size 22369628 = (11184814, 1) \<and>
       \<not> load_factor_reached 16777221 22369628"
proof -
  from many_puts_no_growth [of 16777221] obtain m where
    "run (hashmap_create 22369628) (map (\<lambda>i. Put (replicate (Suc i) CHR ''a'') 1) [0..<16777221]) = Inr m"
    "capacity m = 22369628" "map_length m = 16777221"
    by auto
  moreover have "\<not> load_factor_reached 16777221 22369628"
    by (rule no_growth_below) simp
  ultimately show ?thesis
    by (auto simp: float_of_size_at_2_24)
qed

text \<open>
  C3. On every table reached from \<^verbatim>\<open>hashmap_create\<close> with at least one bucket, when
  \<^verbatim>\<open>hashmap_put_custom\<close> inserts an absent key and the load-factor test succeeds: the
  result is the table with the new entry in front of its chain and the count raised by
  one, grown; the old bucket array is released; capacity and bucket array are doubled;
  every entry is in the bucket its stored key hashes to modulo the new capacity; the
  entries are the same ones; \<^verbatim>\<open>hashmap_get\<close> and \<^verbatim>\<open>hashmap_has\<close> answer on the grown
  table as on the table before growth, for every key; and the count is the count before
  the insert plus one.
\<close>

theorem hashmap_growth_preserves:
  assumes "1 \<le> c" "run (hashmap_create c) ops = Inr m"
    and "hashmap_has m k = Inr (False, m, [])"
    and "load_factor_reached (map_length m + 1) (capacity m)"
  shows "\<exists>m1 m'.
           m1 = m\<lparr>data := (data m)[unat (hash_function k) mod capacity m :=
                          \<lparr>key = strdup k, val = v\<rparr> # data m ! (unat (hash_function k) mod capacity m)],
                   map_length := map_length m + 1\<rparr> \<and>
           m' = hashmap_grow m1 \<and>
           hashmap_put_custom m k v f = Inr ((), m', [Memory_destroy_data]) \<and>
           capacity m' = 2 * capacity m \<and> length (data m') = 2 * capacity m \<and>
           (\<forall>j < capacity m'. \<forall>e \<in> set (data m' ! j).
              unat (hash_function (key e)) mod capacity m' = j) \<and>
           mset (entries m') = mset (entries m1) \<and>
           (\<forall>k'. \<exists>v' b. hashmap_get m1 k' = Inr (v', m1, []) \<and> hashmap_get m' k' = Inr (v', m', []) \<and>
                     hashmap_has m1 k' = Inr (b, m1, []) \<and> hashmap_has m' k' = Inr (b, m', [])) \<and>
           map_length m' = map_length m + 1"
proof -
  define i where "i = unat (hash_function k) mod capacity m"
  define m1 where "m1 = m\<lparr>data := (data m)[i := \<lparr>key = strdup k, val = v\<rparr> # data m ! i],
                  map_length := map_length m + 1\<rparr>"
  define m' where "m' = hashmap_grow m1"
  from assms(1,2) have inv: "hashmap_inv m" by (rule run_create_inv)
  from assms(3) have absent: "lookup m k = None"
    using hashmap_has_False_iff [OF inv, of k] by simp
  note ins = insert_absent [OF inv absent i_def m1_def]
  have inv1: "hashmap_inv m1" by (rule ins(2))
  have inv': "hashmap_inv m'" unfolding m'_def using inv1 by (rule hashmap_grow_inv)
  have put: "hashmap_put_custom m k v f = Inr ((), m', [Memory_destroy_data])"
    unfolding m'_def by (rule hashmap_put_custom_insert(1) [OF inv absent i_def m1_def assms(4)])
  have cap: "capacity m' = 2 * capacity m" "length (data m') = 2 * capacity m"
    "map_length m' = map_length m + 1"
    by (simp_all add: m'_def hashmap_grow_fields m1_def)
  have bucket: "\<forall>j < capacity m'. \<forall>e \<in> set (data m' ! j).
              unat (hash_function (key e)) mod capacity m' = j"
    by (intro allI impI ballI) (rule hashmap_inv_bucket [OF inv'])
  from inv1 have "0 < capacity m1" "length (data m1) = capacity m1"
    by (simp_all add: hashmap_inv_def)
  then have ms: "mset (entries m') = mset (entries m1)"
    unfolding m'_def by (rule hashmap_grow_mset)
  have obs: "\<exists>v' b. hashmap_get m1 k' = Inr (v', m1, []) \<and> hashmap_get m' k' = Inr (v', m', []) \<and>
                     hashmap_has m1 k' = Inr (b, m1, []) \<and> hashmap_has m' k' = Inr (b, m', [])" for k'
    using hashmap_get_lookup [OF inv1, of k'] hashmap_get_lookup [OF inv', of k']
      hashmap_has_lookup [OF inv1, of k'] hashmap_has_lookup [OF inv', of k']
      hashmap_grow_lookup [OF inv1, of k']
    by (simp add: m'_def)
  have m1: "m1 = m\<lparr>data := (data m)[unat (hash_function k) mod capacity m :=
                          \<lparr>key = strdup k, val = v\<rparr> # data m ! (unat (hash_function k) mod capacity m)],
                   map_length := map_length m + 1\<rparr>"
    by (simp only: m1_def i_def)
  have m'_eq: "m' = hashmap_grow m1" by (rule m'_def)
  from obs have obs': "\<forall>k'. \<exists>v' b. hashmap_get m1 k' = Inr (v', m1, []) \<and> hashmap_get m' k' = Inr (v', m', []) \<and>
                     hashmap_has m1 k' = Inr (b, m1, []) \<and> hashmap_has m' k' = Inr (b, m', [])"
    by (rule allI)
  show ?thesis
    by (rule exI [of _ m1], rule exI [of _ m'])
      (intro conjI m1 m'_eq put cap bucket ms obs')
qed

theorem hashmap_growth_preserves_witness:
  "\<exists>m'. hashmap_put_custom \<lparr>capacity = 2, map_length = 1, data = [[\<lparr>key = ''a'', val = 1\<rparr>], []]\<rparr>
            ''e'' 2 Free = Inr ((), m', [Memory_destroy_data]) \<and>
         capacity m' = 4 \<and> length (data m') = 4 \<and> map_length m' = 2"
proof -
  let ?m = "\<lparr>capacity = 2, map_length = 1, data = [[\<lparr>key = ''a'', val = 1\<rparr>], []]\<rparr>"
  have r: "run (hashmap_create 2) [Put ''a'' 1] = Inr ?m"
    by (simp add: put_a)
  have h: "hashmap_has ?m ''e'' = Inr (False, ?m, [])"
    by (simp add: hashmap_has_def hash_e NUL_def)
  have l: "load_factor_reached (map_length ?m + 1) (capacity ?m)"
    using load_factor_2_2 by simp
  from hashmap_growth_preserves [OF _ r h l, of 2 Free] show ?thesis
    by auto
qed

text \<open>
  C4. On every table reached from \<^verbatim>\<open>hashmap_create\<close> with at least one bucket:
  \<^verbatim>\<open>hashmap_remove\<close> of a present key takes the first entry with that key, and only
  it, out of the chain of the key's bucket (the entries before and after it stay, in
  order), lowers the entry count by one, returns the value \<^verbatim>\<open>hashmap_get\<close> would
  return, and releases the key copy and the node without calling any destructor on the
  value; \<^verbatim>\<open>hashmap_remove\<close> of an absent key returns \<^verbatim>\<open>NULL\<close> and leaves the whole
  table as it was.
\<close>

theorem hashmap_remove_detaches:
  assumes "1 \<le> c" "run (hashmap_create c) ops = Inr m"
  shows "(hashmap_has m k = Inr (True, m, []) \<longrightarrow>
            (\<exists>xs e ys. data m ! (unat (hash_function k) mod capacity m) = xs @ e # ys \<and>
               strcmp (key e) k = 0 \<and> (\<forall>x \<in> set xs. strcmp (key x) k \<noteq> 0) \<and>
               hashmap_get m k = Inr (val e, m, []) \<and>
               hashmap_remove m k =
                 Inr (val e,
                      m\<lparr>data := (data m)[unat (hash_function k) mod capacity m := xs @ ys],
                        map_length := map_length m - 1\<rparr>,
                      [Memory_destroy_key (key e), Memory_destroy_entry e]) \<and>
               0 < map_length m)) \<and>
         (hashmap_has m k = Inr (False, m, []) \<longrightarrow> hashmap_remove m k = Inr (NULL, m, []))"
proof -
  from assms have inv: "hashmap_inv m" by (rule run_create_inv)
  have "\<exists>xs e ys. data m ! (unat (hash_function k) mod capacity m) = xs @ e # ys \<and>
               strcmp (key e) k = 0 \<and> (\<forall>x \<in> set xs. strcmp (key x) k \<noteq> 0) \<and>
               hashmap_get m k = Inr (val e, m, []) \<and>
               hashmap_remove m k =
                 Inr (val e,
                      m\<lparr>data := (data m)[unat (hash_function k) mod capacity m := xs @ ys],
                        map_length := map_length m - 1\<rparr>,
                      [Memory_destroy_key (key e), Memory_destroy_entry e]) \<and>
               0 < map_length m"
    if "hashmap_has m k = Inr (True, m, [])"
  proof -
    from that obtain old where old: "lookup m k = Some old"
      using hashmap_has_True_iff [OF inv, of k] by auto
    from hashmap_remove_present [OF inv old] obtain xs e ys where
      "data m ! (unat (hash_function k) mod capacity m) = xs @ e # ys"
      "strcmp (key e) k = 0" "\<forall>x \<in> set xs. strcmp (key x) k \<noteq> 0" "val e = old"
      "hashmap_remove m k =
             Inr (old,
                  m\<lparr>data := (data m)[unat (hash_function k) mod capacity m := xs @ ys],
                    map_length := map_length m - 1\<rparr>,
                  [Memory_destroy_key (key e), Memory_destroy_entry e])"
      "0 < map_length m"
      by blast
    moreover from hashmap_get_lookup [OF inv, of k] old
    have "hashmap_get m k = Inr (old, m, [])" by simp
    ultimately show ?thesis by blast
  qed
  moreover have "hashmap_remove m k = Inr (NULL, m, [])" if "hashmap_has m k = Inr (False, m, [])"
    using that hashmap_has_False_iff [OF inv, of k] hashmap_remove_absent [OF inv, of k] by simp
  ultimately show ?thesis by blast
qed

theorem hashmap_remove_detaches_witness:
  "(\<exists>xs e ys.
      data \<lparr>capacity = 4, map_length = 2,
            data = [[], [], [\<lparr>key = ''a'', val = 1\<rparr>, \<lparr>key = ''e'', val = 2\<rparr>], []]\<rparr> ! 2 = xs @ e # ys \<and>
      (\<forall>x \<in> set xs. strcmp (key x) ''e'' \<noteq> 0) \<and>
      hashmap_remove \<lparr>capacity = 4, map_length = 2,
            data = [[], [], [\<lparr>key = ''a'', val = 1\<rparr>, \<lparr>key = ''e'', val = 2\<rparr>], []]\<rparr> ''e'' =
        Inr (val e,
             \<lparr>capacity = 4, map_length = 1, data = [[], [], xs @ ys, []]\<rparr>,
             [Memory_destroy_key (key e), Memory_destroy_entry e])) \<and>
   hashmap_remove \<lparr>capacity = 4, map_length = 2,
            data = [[], [], [\<lparr>key = ''a'', val = 1\<rparr>, \<lparr>key = ''e'', val = 2\<rparr>], []]\<rparr> ''b'' =
     Inr (NULL, \<lparr>capacity = 4, map_length = 2,
            data = [[], [], [\<lparr>key = ''a'', val = 1\<rparr>, \<lparr>key = ''e'', val = 2\<rparr>], []]\<rparr>, [])"
proof -
  let ?m = "\<lparr>capacity = 4, map_length = 2,
            data = [[], [], [\<lparr>key = ''a'', val = 1\<rparr>, \<lparr>key = ''e'', val = 2\<rparr>], []]\<rparr>"
  have h1: "hashmap_has ?m ''e'' = Inr (True, ?m, [])"
    by (simp add: hashmap_has_def hash_e NUL_def)
  have h2: "hashmap_has ?m ''b'' = Inr (False, ?m, [])"
    by (simp add: hashmap_has_def hash_b)
  from hashmap_remove_detaches [OF _ run_example, of "''e''"] h1
    hashmap_remove_detaches [OF _ run_example, of "''b''"] h2
  show ?thesis by (simp add: hash_e) blast
qed

text \<open>
  C5. On every table reached from \<^verbatim>\<open>hashmap_create\<close> with at least one bucket:
  \<^verbatim>\<open>hashmap_put_custom\<close> on a present key calls the destructor once, on the old value,
  or not at all when the destructor is \<^verbatim>\<open>NULL\<close>, and writes the new value into the
  entry where it stands in its chain; capacity and entry count stay, and nothing is
  grown or released.
\<close>

theorem hashmap_put_custom_overwrites:
  assumes "1 \<le> c" "run (hashmap_create c) ops = Inr m" "hashmap_has m k = Inr (True, m, [])"
  shows "\<exists>xs e ys m'. data m ! (unat (hash_function k) mod capacity m) = xs @ e # ys \<and>
           strcmp (key e) k = 0 \<and> (\<forall>x \<in> set xs. strcmp (key x) k \<noteq> 0) \<and>
           hashmap_get m k = Inr (val e, m, []) \<and>
           hashmap_put_custom m k v f =
             Inr ((), m', if f \<noteq> Null_fn then [Call f (val e)] else []) \<and>
           m' = m\<lparr>data := (data m)[unat (hash_function k) mod capacity m := xs @ e\<lparr>val := v\<rparr> # ys]\<rparr> \<and>
           capacity m' = capacity m \<and> map_length m' = map_length m \<and>
           length (data m') = length (data m)"
proof -
  from assms(1,2) have inv: "hashmap_inv m" by (rule run_create_inv)
  from assms(3) obtain old where old: "lookup m k = Some old"
    using hashmap_has_True_iff [OF inv, of k] by auto
  from hashmap_put_custom_present [OF inv old, of v f] obtain xs e ys where
    "data m ! (unat (hash_function k) mod capacity m) = xs @ e # ys"
    "strcmp (key e) k = 0" "\<forall>x \<in> set xs. strcmp (key x) k \<noteq> 0" "val e = old"
    "hashmap_put_custom m k v f =
       Inr ((), m\<lparr>data := (data m)[unat (hash_function k) mod capacity m := xs @ e\<lparr>val := v\<rparr> # ys]\<rparr>,
            if f \<noteq> Null_fn then [Call f old] else [])"
    by blast
  moreover from hashmap_get_lookup [OF inv, of k] old
  have "hashmap_get m k = Inr (old, m, [])" by simp
  ultimately show ?thesis by auto
qed

theorem hashmap_put_custom_overwrites_witness:
  "\<exists>xs e ys.
      data \<lparr>capacity = 4, map_length = 2,
            data = [[], [], [\<lparr>key = ''a'', val = 1\<rparr>, \<lparr>key = ''e'', val = 2\<rparr>], []]\<rparr> ! 2 = xs @ e # ys \<and>
      (\<forall>x \<in> set xs. strcmp (key x) ''e'' \<noteq> 0) \<and>
      hashmap_put_custom \<lparr>capacity = 4, map_length = 2,
            data = [[], [], [\<lparr>key = ''a'', val = 1\<rparr>, \<lparr>key = ''e'', val = 2\<rparr>], []]\<rparr> ''e'' 7 (Destructor 0) =
        Inr ((), \<lparr>capacity = 4, map_length = 2, data = [[], [], xs @ e\<lparr>val := 7\<rparr> # ys, []]\<rparr>,
             [Call (Destructor 0) (val e)])"
proof -
  let ?m = "\<lparr>capacity = 4, map_length = 2,
            data = [[], [], [\<lparr>key = ''a'', val = 1\<rparr>, \<lparr>key = ''e'', val = 2\<rparr>], []]\<rparr>"
  have h1: "hashmap_has ?m ''e'' = Inr (True, ?m, [])"
    by (simp add: hashmap_has_def hash_e NUL_def)
  from hashmap_put_custom_overwrites [OF _ run_example h1, of 7 "Destructor 0"]
  show ?thesis by (simp add: hash_e) blast
qed

text \<open>
  C6, as stated, fails. In the table of capacity 2 holding \<open>''a''\<close>, putting the absent
  key \<open>''e''\<close> raises the count to 2, the load-factor test succeeds and the table grows to
  capacity 4; the growth loop walks the chain \<open>[''e'', ''a'']\<close> from its head and pushes
  each node on the front of the same new bucket, so the chain ends as \<open>[''a'', ''e'']\<close>:
  the entry just inserted is last, not first, and the traversal order of the bucket
  is oldest first.
\<close>

theorem hashmap_put_custom_front_counterexample:
  "run (hashmap_create 2) [Put ''a'' 1] =
     Inr \<lparr>capacity = 2, map_length = 1, data = [[\<lparr>key = ''a'', val = 1\<rparr>], []]\<rparr> \<and>
   hashmap_has \<lparr>capacity = 2, map_length = 1, data = [[\<lparr>key = ''a'', val = 1\<rparr>], []]\<rparr> ''e'' =
     Inr (False, \<lparr>capacity = 2, map_length = 1, data = [[\<lparr>key = ''a'', val = 1\<rparr>], []]\<rparr>, []) \<and>
   hashmap_put_custom \<lparr>capacity = 2, map_length = 1, data = [[\<lparr>key = ''a'', val = 1\<rparr>], []]\<rparr>
       ''e'' 2 Free =
     Inr ((), \<lparr>capacity = 4, map_length = 2,
               data = [[], [], [\<lparr>key = ''a'', val = 1\<rparr>, \<lparr>key = ''e'', val = 2\<rparr>], []]\<rparr>,
          [Memory_destroy_data]) \<and>
   unat (hash_function ''e'') mod 4 = 2 \<and>
   hd ([[], [], [\<lparr>key = ''a'', val = 1\<rparr>, \<lparr>key = ''e'', val = 2\<rparr>], []] ! 2) \<noteq> \<lparr>key = ''e'', val = 2\<rparr>"
proof -
  have "run (hashmap_create 2) [Put ''a'' 1] =
     Inr \<lparr>capacity = 2, map_length = 1, data = [[\<lparr>key = ''a'', val = 1\<rparr>], []]\<rparr>"
    by (simp add: put_a)
  moreover have "hashmap_has \<lparr>capacity = 2, map_length = 1, data = [[\<lparr>key = ''a'', val = 1\<rparr>], []]\<rparr> ''e'' =
     Inr (False, \<lparr>capacity = 2, map_length = 1, data = [[\<lparr>key = ''a'', val = 1\<rparr>], []]\<rparr>, [])"
    by (simp add: hashmap_has_def hash_e NUL_def)
  moreover have "unat (hash_function ''e'') mod 4 = 2"
    by (simp add: hash_e)
  moreover have "hd ([[], [], [\<lparr>key = ''a'', val = 1\<rparr>, \<lparr>key = ''e'', val = 2\<rparr>], []] ! 2) \<noteq> \<lparr>key = ''e'', val = 2\<rparr>"
    by simp
  ultimately show ?thesis
    using put_e [unfolded hashmap_put_def] by blast
qed

text \<open>
  C6, amended. On every table reached from \<^verbatim>\<open>hashmap_create\<close> with at least one bucket,
  \<^verbatim>\<open>hashmap_put_custom\<close> of an absent key stores an owned copy of the key string, not
  the caller's pointer (the entry's key is what \<^verbatim>\<open>strdup\<close> returns), puts the new entry
  in front of the chain of the key's bucket and raises the entry count by exactly one. When the load-factor test fails, that is the resulting table:
  the new entry is the head of its chain, before the entries the bucket already had, in
  their order. When the test succeeds, the resulting table is that table grown, whose
  chains are rebuilt; it holds the same entries, the new one among them.
\<close>

theorem hashmap_put_custom_inserts:
  assumes "1 \<le> c" "run (hashmap_create c) ops = Inr m"
    and "hashmap_has m k = Inr (False, m, [])"
  shows "\<exists>m1 m' evs.
           m1 = m\<lparr>data := (data m)[unat (hash_function k) mod capacity m :=
                          \<lparr>key = strdup k, val = v\<rparr> # data m ! (unat (hash_function k) mod capacity m)],
                   map_length := map_length m + 1\<rparr> \<and>
           hashmap_put_custom m k v f = Inr ((), m', evs) \<and>
           (\<not> load_factor_reached (map_length m + 1) (capacity m) \<longrightarrow> m' = m1 \<and> evs = []) \<and>
           (load_factor_reached (map_length m + 1) (capacity m) \<longrightarrow>
              m' = hashmap_grow m1 \<and> evs = [Memory_destroy_data]) \<and>
           map_length m' = map_length m + 1 \<and>
           mset (entries m') = add_mset \<lparr>key = strdup k, val = v\<rparr> (mset (entries m))"
proof -
  define i where "i = unat (hash_function k) mod capacity m"
  define m1 where "m1 = m\<lparr>data := (data m)[i := \<lparr>key = strdup k, val = v\<rparr> # data m ! i],
                  map_length := map_length m + 1\<rparr>"
  from assms(1,2) have inv: "hashmap_inv m" by (rule run_create_inv)
  from assms(3) have absent: "lookup m k = None"
    using hashmap_has_False_iff [OF inv, of k] by simp
  note ins = insert_absent [OF inv absent i_def m1_def]
  note put = hashmap_put_custom_insert [OF inv absent i_def m1_def, of f]
  have m1: "m1 = m\<lparr>data := (data m)[unat (hash_function k) mod capacity m :=
                          \<lparr>key = strdup k, val = v\<rparr> # data m ! (unat (hash_function k) mod capacity m)],
                   map_length := map_length m + 1\<rparr>"
    by (simp only: m1_def i_def)
  have len1: "map_length m1 = map_length m + 1" by (simp add: m1_def)
  show ?thesis
  proof (cases "load_factor_reached (map_length m + 1) (capacity m)")
    case True
    from ins(2) have "0 < capacity m1" "length (data m1) = capacity m1"
      by (simp_all add: hashmap_inv_def)
    then have "mset (entries (hashmap_grow m1)) = mset (entries m1)"
      by (rule hashmap_grow_mset)
    with ins(4) have ms: "mset (entries (hashmap_grow m1)) = add_mset \<lparr>key = strdup k, val = v\<rparr> (mset (entries m))"
      by simp
    have len: "map_length (hashmap_grow m1) = map_length m + 1"
      by (simp add: hashmap_grow_fields len1)
    show ?thesis
      by (rule exI [of _ m1], rule exI [of _ "hashmap_grow m1"], rule exI [of _ "[Memory_destroy_data]"])
        (use True put(1) m1 ms len in simp)
  next
    case False
    show ?thesis
      by (rule exI [of _ m1], rule exI [of _ m1], rule exI [of _ "[]"])
        (use False put(2) m1 ins(4) len1 in simp)
  qed
qed

text \<open>
  Both cases on reachable tables that hold \<open>''a''\<close>, whose bucket \<open>''e''\<close> shares: with
  four buckets the table does not grow and the chain becomes \<open>[''e'', ''a'']\<close>, the new
  entry ahead of the one already there; with two buckets it grows, and the rebuilt chain
  is \<open>[''a'', ''e'']\<close>.
\<close>

theorem hashmap_put_custom_inserts_witness:
  "hashmap_put_custom \<lparr>capacity = 4, map_length = 1, data = [[], [], [\<lparr>key = ''a'', val = 1\<rparr>], []]\<rparr>
       ''e'' 2 Free =
     Inr ((), \<lparr>capacity = 4, map_length = 2,
               data = [[], [], [\<lparr>key = ''e'', val = 2\<rparr>, \<lparr>key = ''a'', val = 1\<rparr>], []]\<rparr>, []) \<and>
   hashmap_put_custom \<lparr>capacity = 2, map_length = 1, data = [[\<lparr>key = ''a'', val = 1\<rparr>], []]\<rparr>
       ''e'' 2 Free =
     Inr ((), \<lparr>capacity = 4, map_length = 2,
               data = [[], [], [\<lparr>key = ''a'', val = 1\<rparr>, \<lparr>key = ''e'', val = 2\<rparr>], []]\<rparr>,
          [Memory_destroy_data])"
proof -
  let ?m4 = "\<lparr>capacity = 4, map_length = 1, data = [[], [], [\<lparr>key = ''a'', val = 1\<rparr>], []]\<rparr>"
  let ?m2 = "\<lparr>capacity = 2, map_length = 1, data = [[\<lparr>key = ''a'', val = 1\<rparr>], []]\<rparr>"
  have r4: "run (hashmap_create 4) [Put ''a'' 1] = Inr ?m4"
    by (simp add: put_a_4)
  have h4: "hashmap_has ?m4 ''e'' = Inr (False, ?m4, [])"
    by (simp add: hashmap_has_def hash_e NUL_def)
  have r2: "run (hashmap_create 2) [Put ''a'' 1] = Inr ?m2"
    by (simp add: put_a)
  have h2: "hashmap_has ?m2 ''e'' = Inr (False, ?m2, [])"
    by (simp add: hashmap_has_def hash_e NUL_def)
  from hashmap_put_custom_inserts [OF _ r4 h4, of 2 Free]
  have "hashmap_put_custom ?m4 ''e'' 2 Free =
     Inr ((), \<lparr>capacity = 4, map_length = 2,
               data = [[], [], [\<lparr>key = ''e'', val = 2\<rparr>, \<lparr>key = ''a'', val = 1\<rparr>], []]\<rparr>, [])"
    using load_factor_2_4 by (auto simp: hash_e NUL_def)
  moreover from hashmap_put_custom_inserts [OF _ r2 h2, of 2 Free]
  have "hashmap_put_custom ?m2 ''e'' 2 Free =
     Inr ((), \<lparr>capacity = 4, map_length = 2,
               data = [[], [], [\<lparr>key = ''a'', val = 1\<rparr>, \<lparr>key = ''e'', val = 2\<rparr>], []]\<rparr>,
          [Memory_destroy_data])"
    using load_factor_2_2 by (auto simp: hash_a hash_e NUL_def hashmap_grow_2)
  ultimately show ?thesis by blast
qed




text \<open>
  C8, as stated, fails for keys with bytes from 0x80 up. For the one-byte key 0x80,
  \<^verbatim>\<open>int c = *str++\<close> reads the byte through a plain, signed \<^verbatim>\<open>char\<close> as \<open>-128\<close>, and
  the hash is \<open>5381 * 33 - 128\<close>, not \<open>5381 * 33 + 128\<close>.
\<close>

theorem hash_function_byte_counterexample:
  "hash_function [CHR 0x80] = 5381 * 33 - 128 \<and> hash_function [CHR 0x80] \<noteq> 5381 * 33 + 128"
  by (simp add: hash_function_def char_to_int_def)

text \<open>
  C8, amended. For every key string, the hash is the fold over the bytes before the
  terminating NUL that starts from 5381 and computes \<open>hash * 33 + c\<close> modulo \<open>2 ^ 64\<close>,
  where \<open>c\<close> is the byte as \<^verbatim>\<open>int c = *str++\<close> reads it through plain \<^verbatim>\<open>char\<close>: the byte's
  value below 0x80, the byte's value minus 256 from 0x80 up. On every table reached from
  \<^verbatim>\<open>hashmap_create\<close> with at least one bucket, \<^verbatim>\<open>hashmap_get\<close> and \<^verbatim>\<open>hashmap_has\<close>
  search the chain of bucket hash modulo capacity, \<^verbatim>\<open>hashmap_put_custom\<close> (unless it
  grows the table) and \<^verbatim>\<open>hashmap_remove\<close> change no other bucket, and every entry,
  also after any number of growths, is in the bucket its stored key hashes to modulo
  the current capacity.
\<close>

theorem hash_function_djb2:
  "hash_function k = foldl (\<lambda>hash ch. hash * 33 + of_int (char_to_int ch)) 5381 (strdup k) \<and>
   char_to_int ch = (if of_char ch < (128 :: nat) then int (of_char ch) else int (of_char ch) - 256) \<and>
   (1 \<le> c \<and> run (hashmap_create c) ops = Inr m \<longrightarrow>
      0 < capacity m \<and>
      hashmap_get m k = Inr (get_loop (data m ! (unat (hash_function k) mod capacity m)) k, m, []) \<and>
      hashmap_has m k = Inr (has_loop (data m ! (unat (hash_function k) mod capacity m)) k, m, []) \<and>
      (\<exists>m' evs. hashmap_put_custom m k v f = Inr ((), m', evs) \<and>
         (capacity m' = capacity m \<longrightarrow>
            (\<forall>j. j \<noteq> unat (hash_function k) mod capacity m \<longrightarrow> data m' ! j = data m ! j))) \<and>
      (\<exists>r m' evs. hashmap_remove m k = Inr (r, m', evs) \<and> capacity m' = capacity m \<and>
         (\<forall>j. j \<noteq> unat (hash_function k) mod capacity m \<longrightarrow> data m' ! j = data m ! j)) \<and>
      (\<forall>j < capacity m. \<forall>e \<in> set (data m ! j).
         unat (hash_function (key e)) mod capacity m = j))"
proof -
  have "hash_function k = foldl (\<lambda>hash ch. hash * 33 + of_int (char_to_int ch)) 5381 (strdup k)"
    by (simp only: hash_function_def hash_loop_foldl)
  moreover note char_to_int_signed [of ch]
  moreover have "0 < capacity m \<and>
      hashmap_get m k = Inr (get_loop (data m ! (unat (hash_function k) mod capacity m)) k, m, []) \<and>
      hashmap_has m k = Inr (has_loop (data m ! (unat (hash_function k) mod capacity m)) k, m, []) \<and>
      (\<exists>m' evs. hashmap_put_custom m k v f = Inr ((), m', evs) \<and>
         (capacity m' = capacity m \<longrightarrow>
            (\<forall>j. j \<noteq> unat (hash_function k) mod capacity m \<longrightarrow> data m' ! j = data m ! j))) \<and>
      (\<exists>r m' evs. hashmap_remove m k = Inr (r, m', evs) \<and> capacity m' = capacity m \<and>
         (\<forall>j. j \<noteq> unat (hash_function k) mod capacity m \<longrightarrow> data m' ! j = data m ! j)) \<and>
      (\<forall>j < capacity m. \<forall>e \<in> set (data m ! j).
         unat (hash_function (key e)) mod capacity m = j)"
    if "1 \<le> c" "run (hashmap_create c) ops = Inr m"
  proof -
    from that have inv: "hashmap_inv m" by (rule run_create_inv)
    then have pos: "0 < capacity m" by (simp add: hashmap_inv_def)
    have get: "hashmap_get m k = Inr (get_loop (data m ! (unat (hash_function k) mod capacity m)) k, m, [])"
      using pos by (simp add: hashmap_get_def)
    have has: "hashmap_has m k = Inr (has_loop (data m ! (unat (hash_function k) mod capacity m)) k, m, [])"
      using pos by (simp add: hashmap_has_def)
    have bucket: "\<forall>j < capacity m. \<forall>e \<in> set (data m ! j).
         unat (hash_function (key e)) mod capacity m = j"
      by (intro allI impI ballI) (rule hashmap_inv_bucket [OF inv])
    show ?thesis
      by (intro conjI pos get has bucket hashmap_put_custom_other_buckets [OF inv]
          hashmap_remove_other_buckets [OF inv])
  qed
  ultimately show ?thesis by blast
qed

theorem hash_function_djb2_witness:
  "hash_function ''ab'' = (5381 * 33 + 97) * 33 + 98 \<and>
   unat (hash_function (key \<lparr>key = ''e'', val = 2\<rparr>)) mod 4 = 2"
proof -
  let ?m = "\<lparr>capacity = 4, map_length = 2,
            data = [[], [], [\<lparr>key = ''a'', val = 1\<rparr>, \<lparr>key = ''e'', val = 2\<rparr>], []]\<rparr>"
  have "hash_function ''ab'' = (5381 * 33 + 97) * 33 + 98"
    using hash_function_djb2 [of "''ab''"]
    by (simp add: hash_function_def char_to_int_def)
  moreover have prem: "1 \<le> (2 :: nat) \<and> run (hashmap_create 2) [Put ''a'' 1, Put ''e'' 2] = Inr ?m"
    using run_example by simp
  note t = hash_function_djb2 [where k = "''a''" and c = 2 and ops = "[Put ''a'' 1, Put ''e'' 2]"
      and m = ?m, THEN conjunct2, THEN conjunct2, THEN mp, OF prem]
  from t have "\<forall>j < capacity ?m. \<forall>e \<in> set (data ?m ! j).
      unat (hash_function (key e)) mod capacity ?m = j"
    by (rule conjunct2 [OF conjunct2 [OF conjunct2 [OF conjunct2 [OF conjunct2]]]])
  then have "\<forall>e \<in> set (data ?m ! 2). unat (hash_function (key e)) mod capacity ?m = 2"
    by simp
  then have "unat (hash_function (key \<lparr>key = ''e'', val = 2\<rparr>)) mod 4 = 2"
    by simp
  ultimately show ?thesis by blast
qed

text \<open>
  C9. \<^verbatim>\<open>type_keyword\<close> compares the complete lexeme with the names of the keyword table
  in declaration order and returns the type of the first equal name: the eleven
  reserved words each have their own token type, \<open>true\<close> and \<open>false\<close> are both
  \<^verbatim>\<open>TOKEN_BOOLEAN\<close>, and every other lexeme is \<^verbatim>\<open>TOKEN_IDENTIFIER\<close>.
\<close>

theorem type_keyword_classifies:
  "type_keyword s =
     (case find (\<lambda>entry. s = fst entry) keywords_table of
        None \<Rightarrow> TOKEN_IDENTIFIER | Some entry \<Rightarrow> snd entry) \<and>
   map fst keywords_table =
     [''layout'', ''import'', ''fn'', ''return'', ''if'', ''print'', ''else'', ''while'',
      ''for'', ''break'', ''continue'', ''true'', ''false''] \<and>
   type_keyword ''layout'' = TOKEN_LAYOUT \<and>
   type_keyword ''import'' = TOKEN_IMPORT \<and>
   type_keyword ''fn'' = TOKEN_FUNCTION \<and>
   type_keyword ''return'' = TOKEN_RETURN \<and>
   type_keyword ''if'' = TOKEN_IF \<and>
   type_keyword ''print'' = TOKEN_PRINT \<and>
   type_keyword ''else'' = TOKEN_ELSE \<and>
   type_keyword ''while'' = TOKEN_WHILE \<and>
   type_keyword ''for'' = TOKEN_FOR \<and>
   type_keyword ''break'' = TOKEN_BREAK \<and>
   type_keyword ''continue'' = TOKEN_CONTINUE \<and>
   type_keyword ''true'' = TOKEN_BOOLEAN \<and>
   type_keyword ''false'' = TOKEN_BOOLEAN \<and>
   (s \<notin> set (map fst keywords_table) \<longrightarrow> type_keyword s = TOKEN_IDENTIFIER)"
  by (simp add: type_keyword_def keywords_table_def)

theorem type_keyword_classifies_witness:
  "type_keyword ''layouts'' = TOKEN_IDENTIFIER \<and> type_keyword ''fn'' = TOKEN_FUNCTION"
  using type_keyword_classifies [of "''layouts''"]
  by (simp add: keywords_table_def)

text \<open>
  C10. On every table reached from \<^verbatim>\<open>hashmap_create\<close> with at least one bucket: after a
  key is put with the value \<^verbatim>\<open>NULL\<close>, \<^verbatim>\<open>hashmap_get\<close> returns \<^verbatim>\<open>NULL\<close>, as it does
  for an absent key, while \<^verbatim>\<open>hashmap_has\<close> returns true; \<^verbatim>\<open>hashmap_has\<close> is true
  exactly when some entry's key equals the key byte for byte, whatever its value; and
  both functions leave the table as it was and release or destroy nothing.
\<close>

theorem hashmap_has_tells_stored_NULL:
  assumes "1 \<le> c" "run (hashmap_create c) ops = Inr m"
  shows "(\<exists>m' evs. hashmap_put_custom m k NULL f = Inr ((), m', evs) \<and>
            hashmap_get m' k = Inr (NULL, m', []) \<and> hashmap_has m' k = Inr (True, m', [])) \<and>
         hashmap_has m k' = Inr (\<exists>e \<in> set (entries m). strcmp (key e) k' = 0, m, []) \<and>
         (\<exists>v. hashmap_get m k' = Inr (v, m, []))"
proof -
  from assms have inv: "hashmap_inv m" by (rule run_create_inv)
  from hashmap_put_custom_inv [OF inv, of k NULL f] obtain m' evs where
    m': "hashmap_put_custom m k NULL f = Inr ((), m', evs)" "hashmap_inv m'"
    "\<And>k'. lookup m' k' = (if strdup k' = strdup k then Some NULL else lookup m k')"
    by blast
  from m'(3) [of k] have "lookup m' k = Some NULL" by simp
  with hashmap_get_lookup [OF m'(2), of k] hashmap_has_lookup [OF m'(2), of k]
  have "hashmap_get m' k = Inr (NULL, m', [])" "hashmap_has m' k = Inr (True, m', [])"
    by simp_all
  with m'(1) have "\<exists>m' evs. hashmap_put_custom m k NULL f = Inr ((), m', evs) \<and>
            hashmap_get m' k = Inr (NULL, m', []) \<and> hashmap_has m' k = Inr (True, m', [])"
    by blast
  moreover have "hashmap_has m k' = Inr (\<exists>e \<in> set (entries m). strcmp (key e) k' = 0, m, [])"
    using hashmap_has_lookup [OF inv, of k'] has_entry_iff [OF inv, of k'] by simp
  moreover have "\<exists>v. hashmap_get m k' = Inr (v, m, [])"
    using hashmap_get_lookup [OF inv, of k'] by simp
  ultimately show ?thesis by blast
qed

theorem hashmap_has_tells_stored_NULL_witness:
  "\<exists>m' evs. hashmap_put_custom \<lparr>capacity = 2, map_length = 1, data = [[\<lparr>key = ''a'', val = 1\<rparr>], []]\<rparr>
       ''b'' NULL Free = Inr ((), m', evs) \<and>
     hashmap_get m' ''b'' = Inr (NULL, m', []) \<and> hashmap_has m' ''b'' = Inr (True, m', [])"
proof -
  have r: "run (hashmap_create 2) [Put ''a'' 1] =
      Inr \<lparr>capacity = 2, map_length = 1, data = [[\<lparr>key = ''a'', val = 1\<rparr>], []]\<rparr>"
    by (simp add: put_a)
  from hashmap_has_tells_stored_NULL [OF _ r, of "''b''" Free] show ?thesis by simp
qed

end
